theory Spec2Isabelle
  imports Main "HOL-Library.AList" "HOL-Library.Sublist"
begin

section \<open>Python values, exceptions and dictionaries\<close>

text \<open>
  Exceptions are values. The string carries the message or the missing name; collaborators
  (feed parser, HTML scanner, HTTP client, ...) may raise any of them.
\<close>

datatype exn =
    AttributeError string
  | KeyError string
  | TypeError string
  | IndexError string
  | ValueError string
  | OverflowError string
  | LibraryError string

text \<open>
  The values that live in the ledger and in the webhook payload: what \<open>json.loads\<close> can
  return, plus the exception object that \<open>process_feed\<close> stores under
  \<open>last_exception\<close>. A dict is an association list in insertion order; \<open>map_of\<close> is
  \<open>d[k]\<close> / \<open>k in d\<close> and \<open>AList.update\<close> is \<open>d[k] = v\<close> (replace in place, or append).
  Numbers are integers; timestamps count microseconds, the resolution of \<open>datetime\<close>.
\<close>

datatype pyval =
    PNone
  | PBool bool
  | PNum int
  | PStr string
  | PList "pyval list"
  | PDict "(string \<times> pyval) list"
  | PExn exn

text \<open>Python truthiness, as used by \<open>not row.get('sent')\<close>.\<close>

fun truthy :: "pyval \<Rightarrow> bool" where
  "truthy PNone = False"
| "truthy (PBool b) = b"
| "truthy (PNum n) = (n \<noteq> 0)"
| "truthy (PStr s) = (s \<noteq> [])"
| "truthy (PList xs) = (xs \<noteq> [])"
| "truthy (PDict kvs) = (kvs \<noteq> [])"
| "truthy (PExn e) = True"

text \<open>\<open>row.get('sent')\<close> followed by a truth test: a missing key gives \<open>None\<close>, which is falsy.\<close>

definition get_truthy :: "(string \<times> pyval) list \<Rightarrow> string \<Rightarrow> bool" where
  "get_truthy d k = (case map_of d k of None \<Rightarrow> False | Some v \<Rightarrow> truthy v)"

text \<open>Sequencing of computations that may raise.\<close>

definition andthen :: "exn + 'a \<Rightarrow> ('a \<Rightarrow> exn + 'b) \<Rightarrow> exn + 'b" where
  "andthen m f = (case m of Inl e \<Rightarrow> Inl e | Inr x \<Rightarrow> f x)"

text \<open>Attribute access on a \<open>FeedParserDict\<close>: a missing key raises \<open>AttributeError\<close>.\<close>

definition attr :: "string \<Rightarrow> 'a option \<Rightarrow> exn + 'a" where
  "attr name v = (case v of None \<Rightarrow> Inl (AttributeError name) | Some x \<Rightarrow> Inr x)"

section \<open>String built-ins used by the source\<close>

text \<open>\<open>str.isspace\<close> on the code points below 256.\<close>

definition py_isspace :: "char \<Rightarrow> bool" where
  "py_isspace c =
     (let n = (of_char c :: nat)
      in (9 \<le> n \<and> n \<le> 13) \<or> (28 \<le> n \<and> n \<le> 32) \<or> n = 133 \<or> n = 160)"

text \<open>\<open>s.strip()\<close>: drop leading and trailing whitespace.\<close>

definition py_strip :: "string \<Rightarrow> string" where
  "py_strip s = rev (dropWhile py_isspace (rev (dropWhile py_isspace s)))"

text \<open>\<open>s.replace('\t', '  ')\<close>.\<close>

definition py_replace_tab :: "string \<Rightarrow> string" where
  "py_replace_tab s = concat (map (\<lambda>c. if c = CHR 0x09 then [CHR 0x20, CHR 0x20] else [c]) s)"

text \<open>The line boundaries of \<open>str.splitlines\<close> below code point 256.\<close>

definition py_linebreak :: "char \<Rightarrow> bool" where
  "py_linebreak c =
     (let n = (of_char c :: nat)
      in (10 \<le> n \<and> n \<le> 13) \<or> (28 \<le> n \<and> n \<le> 30) \<or> n = 133)"

text \<open>
  \<open>s.splitlines()\<close>: \<open>cur\<close> is the line read so far. A carriage return followed by a line
  feed is one boundary; a boundary at the very end opens no further line.
\<close>

fun splitlines_from :: "string \<Rightarrow> string \<Rightarrow> string list" where
  "splitlines_from cur [] = (if cur = [] then [] else [cur])"
| "splitlines_from cur (c # cs) =
     (if c = CHR 0x0D \<and> cs \<noteq> [] \<and> hd cs = CHR 0x0A then cur # splitlines_from [] (tl cs)
      else if py_linebreak c then cur # splitlines_from [] cs
      else splitlines_from (cur @ [c]) cs)"

definition py_splitlines :: "string \<Rightarrow> string list" where
  "py_splitlines s = splitlines_from [] s"

section \<open>Feed data and configuration\<close>

text \<open>
  A feed entry as the parser yields it: every field may be missing. \<open>e_content\<close> holds the
  \<open>value\<close> of each content element; a media item is the attribute dict of one
  \<open>media:content\<close> element.
\<close>

record entry =
  e_id :: "string option"
  e_link :: "string option"
  e_title :: "string option"
  e_summary :: "string option"
  e_content :: "string list option"
  e_media_content :: "(string \<times> string) list list option"

record feed_meta =
  f_link :: "string option"
  f_title :: "string option"

text \<open>The result of \<open>feedparser.parse\<close>.\<close>

record parsed =
  bozo :: bool
  p_error :: "string option"
  p_status :: "int option"
  p_feed :: feed_meta
  p_entries :: "entry list"

text \<open>\<open>FeedConfig\<close>; \<open>username\<close> and \<open>avatar_url\<close> are \<open>None\<close> when not configured.\<close>

record feed_config =
  feed_url :: string
  username :: "string option"
  avatar_url :: "string option"
  include_summary :: bool
  include_image :: bool

text \<open>The command-line options the agent reads.\<close>

record options =
  dry_run :: bool
  populate :: bool
  max_age :: int

section \<open>Collaborators\<close>

text \<open>
  Everything outside the repository is a parameter: the clock (\<open>clock n\<close> is the
  \<open>n\<close>-th reading of \<open>datetime.now().timestamp()\<close>), the feed parser (by fetch number
  and URL), the HTTP client (by request number, URL and JSON body; the answer is a status
  code and a body, or an exception), the JSON codec, the HTML image scanner
  (\<open>BeautifulSoup(html).find_all('img', src=True)\<close>, the \<open>src\<close> values in document
  order), \<open>urllib.parse.urljoin\<close>, \<open>html_to_markdown.convert_to_markdown\<close> with the
  options the source fixes (among them \<open>strip=['img']\<close>), \<open>int\<close> on a string, and
  the date arithmetic of \<open>datetime\<close>: \<open>days_before now n\<close> is
  \<open>(d - timedelta(days=n)).timestamp()\<close> for the \<open>d = datetime.now()\<close> whose timestamp is
  \<open>now\<close>. The subtraction is done on naive local time, so the result depends on the
  time zone and its daylight-saving rules, and it raises when the days or the date are out
  of range.
\<close>

record libs =
  clock :: "nat \<Rightarrow> int"
  feedparser_parse :: "nat \<Rightarrow> string \<Rightarrow> exn + parsed"
  requests_post :: "nat \<Rightarrow> string \<Rightarrow> pyval \<Rightarrow> exn + int \<times> string"
  json_loads :: "string \<Rightarrow> pyval option"
  json_dumps :: "pyval \<Rightarrow> string"
  img_srcs :: "string \<Rightarrow> exn + string list"
  urljoin :: "string \<Rightarrow> string \<Rightarrow> exn + string"
  convert_to_markdown :: "string \<Rightarrow> exn + string"
  py_int :: "string \<Rightarrow> exn + int"
  days_before :: "int \<Rightarrow> int \<Rightarrow> exn + int"

section \<open>Content extraction\<close>

text \<open>\<open>to_markdown\<close>: empty input gives the empty string without calling the converter.\<close>

definition to_markdown :: "libs \<Rightarrow> string \<Rightarrow> exn + string" where
  "to_markdown L html =
     (if html = [] then Inr []
      else andthen (convert_to_markdown L html) (\<lambda>md. Inr (py_replace_tab (py_strip md))))"

text \<open>
  The list comprehension of \<open>get_content\<close>: \<open>entry.link\<close> is read once per image, so a
  missing link raises only when there is an image.
\<close>

fun resolve_all :: "libs \<Rightarrow> entry \<Rightarrow> string list \<Rightarrow> exn + string list" where
  "resolve_all L entry [] = Inr []"
| "resolve_all L entry (src # srcs) =
     (case attr ''link'' (e_link entry) of Inl e \<Rightarrow> Inl e
      | Inr link \<Rightarrow>
         (case urljoin L link src of Inl e \<Rightarrow> Inl e
          | Inr u \<Rightarrow>
             (case resolve_all L entry srcs of Inl e \<Rightarrow> Inl e
              | Inr us \<Rightarrow> Inr (u # us))))"

text \<open>\<open>entry.content[0].value\<close>.\<close>

definition content0 :: "string list \<Rightarrow> exn + string" where
  "content0 cs = (case cs of [] \<Rightarrow> Inl (IndexError ''list index out of range'') | c # _ \<Rightarrow> Inr c)"

text \<open>The HTML that images are taken from: content first, then summary, then nothing.\<close>

definition image_html :: "entry \<Rightarrow> exn + string" where
  "image_html entry =
     (case e_content entry of
        Some cs \<Rightarrow> content0 cs
      | None \<Rightarrow> (case e_summary entry of Some s \<Rightarrow> Inr s | None \<Rightarrow> Inr []))"

text \<open>The text: a non-empty summary first, then non-empty content, then nothing.\<close>

definition content_text :: "libs \<Rightarrow> entry \<Rightarrow> exn + string" where
  "content_text L entry =
     (case e_content entry of
        None \<Rightarrow> Inr []
      | Some cs \<Rightarrow> andthen (content0 cs) (\<lambda>c. if c \<noteq> [] then to_markdown L c else Inr []))"

definition summary_text :: "libs \<Rightarrow> entry \<Rightarrow> exn + string" where
  "summary_text L entry =
     (case e_summary entry of
        None \<Rightarrow> content_text L entry
      | Some s \<Rightarrow> if s \<noteq> [] then to_markdown L s else content_text L entry)"

definition get_content :: "libs \<Rightarrow> entry \<Rightarrow> exn + string \<times> string list" where
  "get_content L entry =
     andthen (image_html entry) (\<lambda>html.
     andthen (img_srcs L html) (\<lambda>srcs.
     andthen (resolve_all L entry srcs) (\<lambda>images.
     andthen (summary_text L entry) (\<lambda>md_text.
     Inr (md_text, images)))))"

section \<open>Payload construction\<close>

text \<open>\<open>int(item[k]) if k in item else None\<close>.\<close>

definition optional_int :: "libs \<Rightarrow> (string \<times> string) list \<Rightarrow> string \<Rightarrow> exn + pyval" where
  "optional_int L item k =
     (case map_of item k of
        None \<Rightarrow> Inr PNone
      | Some s \<Rightarrow> (case py_int L s of Inl e \<Rightarrow> Inl e | Inr n \<Rightarrow> Inr (PNum n)))"

text \<open>The dict stored for a media item: its URL and its height and width, numeric or \<open>None\<close>.\<close>

definition media_object :: "libs \<Rightarrow> (string \<times> string) list \<Rightarrow> exn + pyval" where
  "media_object L item =
     (case map_of item ''url'' of
        None \<Rightarrow> Inl (KeyError ''url'')
      | Some url \<Rightarrow>
          andthen (optional_int L item ''height'') (\<lambda>h.
          andthen (optional_int L item ''width'') (\<lambda>w.
          Inr (PDict [(''url'', PStr url), (''height'', h), (''width'', w)]))))"

text \<open>
  The loop over \<open>entry.media_content\<close>: an item whose medium is \<open>image\<close> or
  \<open>thumbnail\<close> is stored under that key unless the key is already in the embed.
\<close>

fun attach_media ::
  "libs \<Rightarrow> (string \<times> string) list list \<Rightarrow> (string \<times> pyval) list \<Rightarrow> exn + (string \<times> pyval) list"
where
  "attach_media L [] emb = Inr emb"
| "attach_media L (item # items) emb =
     (case map_of item ''medium'' of
        None \<Rightarrow> Inl (KeyError ''medium'')
      | Some medium \<Rightarrow>
          if (medium = ''image'' \<or> medium = ''thumbnail'') \<and> map_of emb medium = None then
            (case media_object L item of
               Inl e \<Rightarrow> Inl e
             | Inr obj \<Rightarrow> attach_media L items (AList.update medium obj emb))
          else attach_media L items emb)"

text \<open>The \<open>if config.include_image:\<close> block of \<open>process_entry\<close>.\<close>

definition attach_image ::
  "libs \<Rightarrow> feed_config \<Rightarrow> entry \<Rightarrow> string list \<Rightarrow> (string \<times> pyval) list \<Rightarrow> exn + (string \<times> pyval) list"
where
  "attach_image L config entry images emb =
     (if include_image config then
        (case e_media_content entry of
           Some items \<Rightarrow> attach_media L items emb
         | None \<Rightarrow>
             (case images of
                [] \<Rightarrow> Inr emb
              | u # _ \<Rightarrow> Inr (AList.update ''thumbnail'' (PDict [(''url'', PStr u)]) emb)))
      else Inr emb)"

text \<open>The description: the title as a linked heading, then the summary when configured.\<close>

definition description_text :: "feed_config \<Rightarrow> string \<Rightarrow> string \<Rightarrow> string \<Rightarrow> string" where
  "description_text config title_md link md_text =
     (let text = ''## ['' @ title_md @ '']('' @ link @ '')''
      in if include_summary config
         then text @ [CHR 0x0A] @ md_text @ [CHR 0x0A] @ ''-# [Read more...](<'' @ link @ ''>)''
         else text)"

text \<open>The embed, from \<open>get_content\<close> to the end of the image block.\<close>

definition build_embed ::
  "libs \<Rightarrow> feed_config \<Rightarrow> feed_meta \<Rightarrow> entry \<Rightarrow> exn + (string \<times> pyval) list"
where
  "build_embed L config feed entry =
     andthen (get_content L entry) (\<lambda>(md_text, images).
     andthen (attr ''title'' (e_title entry)) (\<lambda>title.
     andthen (to_markdown L title) (\<lambda>title_md.
     andthen (attr ''link'' (e_link entry)) (\<lambda>link.
     andthen (attr ''link'' (f_link feed)) (\<lambda>feed_link.
     andthen (attr ''title'' (f_title feed)) (\<lambda>feed_title.
     andthen (to_markdown L feed_title) (\<lambda>feed_name.
     attach_image L config entry images
       [(''type'', PStr ''rich''),
        (''url'', PStr link),
        (''author'', PDict [(''url'', PStr feed_link), (''name'', PStr feed_name)]),
        (''description'', PStr (description_text config title_md link md_text))])))))))"

text \<open>A configured, non-empty string goes into the payload.\<close>

definition sender_fields :: "feed_config \<Rightarrow> (string \<times> pyval) list" where
  "sender_fields config =
     (case username config of
        Some u \<Rightarrow> if u \<noteq> [] then [(''username'', PStr u)] else []
      | None \<Rightarrow> []) @
     (case avatar_url config of
        Some a \<Rightarrow> if a \<noteq> [] then [(''avatar_url'', PStr a)] else []
      | None \<Rightarrow> [])"

definition build_payload ::
  "libs \<Rightarrow> feed_config \<Rightarrow> feed_meta \<Rightarrow> entry \<Rightarrow> exn + pyval"
where
  "build_payload L config feed entry =
     andthen (build_embed L config feed entry) (\<lambda>emb.
     Inr (PDict (sender_fields config @ [(''embeds'', PList [PDict emb])])))"

section \<open>The agent and the world it runs in\<close>

text \<open>
  One webhook POST as the world saw it: the request, the answer, and (for counting
  deliveries per entry) the id of the entry it was made for.
\<close>

record post =
  p_entry :: "string option"
  p_url :: string
  p_body :: pyval
  p_answer :: "exn + int \<times> string"

text \<open>
  The world: how many clock readings and feed fetches have happened, every POST issued so
  far, and the files on disk (path and text).
\<close>

record world =
  ticks :: nat
  fetches :: nat
  posts :: "post list"
  files :: "(string \<times> string) list"

text \<open>The fields of \<open>DiscordRSS\<close>.\<close>

record agent =
  webhook :: string
  feeds :: "feed_config list"
  database_file :: string
  database :: pyval

section \<open>Delivery of one entry\<close>

text \<open>
  \<open>process_entry\<close> returns its result or the exception it raised, the row as it left it
  (the row is mutated in place) and the world. A status outside 2xx reaches
  \<open>row['errors'].push(...)\<close>; no value that can be stored under \<open>errors\<close> has a
  \<open>push\<close> attribute, so the attribute lookup raises before the error record is built.
\<close>

definition process_entry ::
  "libs \<Rightarrow> agent \<Rightarrow> options \<Rightarrow> feed_config \<Rightarrow> feed_meta \<Rightarrow> entry \<Rightarrow>
   (string \<times> pyval) list \<Rightarrow> world \<Rightarrow> (exn + bool) \<times> (string \<times> pyval) list \<times> world"
where
  "process_entry L self opts config feed entry row w =
     (case build_payload L config feed entry of
        Inl e \<Rightarrow> (Inl e, row, w)
      | Inr payload \<Rightarrow>
          if dry_run opts then (Inr False, row, w)
          else
            (let answer = requests_post L (length (posts w)) (webhook self) payload;
                 w' = w\<lparr>posts := posts w @
                        [\<lparr>p_entry = e_id entry, p_url = webhook self,
                          p_body = payload, p_answer = answer\<rparr>]\<rparr>
             in case answer of
                  Inl e \<Rightarrow> (Inl e, row, w')
                | Inr (status_code, text) \<Rightarrow>
                    if status_code div 100 = 2 then (Inr True, row, w')
                    else
                      (Inl (AttributeError ''push''),
                       (if map_of row ''errors'' = None
                        then AList.update ''errors'' (PList []) row else row),
                       w')))"

section \<open>Processing a feed\<close>

fun dict_of :: "pyval \<Rightarrow> (string \<times> pyval) list option" where
  "dict_of (PDict d) = Some d"
| "dict_of v = None"

text \<open>
  What the loop body of \<open>process_feed\<close> does to the row once it has it: refresh \<open>url\<close>
  and \<open>last_seen\<close>, and, unless \<open>sent\<close> is truthy, mark the row (populate), deliver
  the entry, or record the exception that \<open>process_entry\<close> raised.
\<close>

definition row_step ::
  "libs \<Rightarrow> agent \<Rightarrow> options \<Rightarrow> feed_config \<Rightarrow> feed_meta \<Rightarrow> entry \<Rightarrow> string \<Rightarrow>
   (string \<times> pyval) list \<Rightarrow> world \<Rightarrow> (string \<times> pyval) list \<times> world"
where
  "row_step L self opts feed meta entry link row0 w =
     (let now = clock L (ticks w);
          w1 = w\<lparr>ticks := Suc (ticks w)\<rparr>;
          row = AList.update ''last_seen'' (PNum now) (AList.update ''url'' (PStr link) row0)
      in if get_truthy row ''sent'' then (row, w1)
         else if populate opts then (AList.update ''sent'' (PBool True) row, w1)
         else
           (case process_entry L self opts feed meta entry row w1 of
              (Inr ok, row', w2) \<Rightarrow> (if ok then AList.update ''sent'' (PNum now) row' else row', w2)
            | (Inl err, row', w2) \<Rightarrow>
                (AList.update ''last_exception''
                   (PDict [(''error'', PExn err), (''time'', PNum now)]) row',
                 w2)))"

text \<open>
  The body of the loop over \<open>data.entries\<close>. The result is the state the body leaves and
  the exception that escapes it, if any. Only an exception raised inside
  \<open>process_entry\<close> is caught; \<open>entry.id\<close>, \<open>entry.link\<close> and the accesses to the
  database are outside the \<open>try\<close>. A database that is not a dict, or a row that is not a
  dict, raises \<open>TypeError\<close> at the membership test or at the first item assignment.
  The row object lives in the database, so the row as \<open>row_step\<close> leaves it is stored back.
\<close>

fun entry_step ::
  "libs \<Rightarrow> options \<Rightarrow> feed_config \<Rightarrow> feed_meta \<Rightarrow> entry \<Rightarrow> agent \<times> world \<Rightarrow>
   (agent \<times> world) \<times> exn option"
where
  "entry_step L opts feed meta entry (self, w) =
     (case e_id entry of
        None \<Rightarrow> ((self, w), Some (AttributeError ''id''))
      | Some i \<Rightarrow>
         (case dict_of (database self) of
            None \<Rightarrow> ((self, w), Some (TypeError ''database''))
          | Some rows0 \<Rightarrow>
             (let rows = (if map_of rows0 i = None then AList.update i (PDict []) rows0 else rows0);
                  self1 = self\<lparr>database := PDict rows\<rparr>
              in case map_of rows i of
                   None \<Rightarrow> ((self1, w), Some (KeyError i))
                 | Some r \<Rightarrow>
                    (case e_link entry of
                       None \<Rightarrow> ((self1, w), Some (AttributeError ''link''))
                     | Some link \<Rightarrow>
                        (case dict_of r of
                           None \<Rightarrow> ((self1, w), Some (TypeError ''row''))
                         | Some row0 \<Rightarrow>
                            (case row_step L self1 opts feed meta entry link row0 w of
                               (row, w') \<Rightarrow>
                                 ((self1\<lparr>database := PDict (AList.update i (PDict row) rows)\<rparr>, w'),
                                  None)))))))"

text \<open>The loop: an exception that escapes the body ends it.\<close>

fun entries_loop ::
  "libs \<Rightarrow> options \<Rightarrow> feed_config \<Rightarrow> feed_meta \<Rightarrow> entry list \<Rightarrow> agent \<times> world \<Rightarrow>
   (agent \<times> world) \<times> exn option"
where
  "entries_loop L opts feed meta [] s = (s, None)"
| "entries_loop L opts feed meta (entry # entries) s =
     (case entry_step L opts feed meta entry s of
        (s', Some e) \<Rightarrow> (s', Some e)
      | (s', None) \<Rightarrow> entries_loop L opts feed meta entries s')"

text \<open>
  \<open>process_feed\<close>. On a parse failure the feed is skipped; the warning reads
  \<open>data.error\<close> and \<open>data.status\<close>, which raise when the parser did not set them.
\<close>

fun process_feed ::
  "libs \<Rightarrow> options \<Rightarrow> feed_config \<Rightarrow> agent \<times> world \<Rightarrow> (agent \<times> world) \<times> exn option"
where
  "process_feed L opts feed (self, w) =
     (let w1 = w\<lparr>fetches := Suc (fetches w)\<rparr>
      in case feedparser_parse L (fetches w) (feed_url feed) of
           Inl e \<Rightarrow> ((self, w1), Some e)
         | Inr data \<Rightarrow>
             if bozo data then
               (case p_error data of
                  None \<Rightarrow> ((self, w1), Some (AttributeError ''error''))
                | Some err \<Rightarrow>
                    (case p_status data of
                       None \<Rightarrow> ((self, w1), Some (AttributeError ''status''))
                     | Some st \<Rightarrow> ((self, w1), None)))
             else entries_loop L opts feed (p_feed data) (p_entries data) (self, w1))"

section \<open>Pruning and saving\<close>

text \<open>
  \<open>v > cutoff\<close>: numbers compare, a bool counts as 0 or 1 (a second, in microseconds),
  anything else raises.
\<close>

definition gt_cutoff :: "pyval \<Rightarrow> int \<Rightarrow> exn + bool" where
  "gt_cutoff v cutoff =
     (case v of
        PNum n \<Rightarrow> Inr (n > cutoff)
      | PBool b \<Rightarrow> Inr ((if b then 1000000 else 0) > cutoff)
      | _ \<Rightarrow> Inl (TypeError ''>''))"

text \<open>
  The filter of the dict comprehension in \<open>flushdb\<close>:
  \<open>'last_seen' in data and data['last_seen'] > cutoff\<close>. For a dict \<open>in\<close> tests the keys,
  for a list the elements, for a string the substrings; other values are not containers.
\<close>

definition keep_item :: "int \<Rightarrow> pyval \<Rightarrow> exn + bool" where
  "keep_item cutoff data =
     (case data of
        PDict d \<Rightarrow>
          (case map_of d ''last_seen'' of None \<Rightarrow> Inr False | Some v \<Rightarrow> gt_cutoff v cutoff)
      | PList xs \<Rightarrow>
          if PStr ''last_seen'' \<in> set xs then Inl (TypeError ''list indices'') else Inr False
      | PStr s \<Rightarrow>
          if sublist ''last_seen'' s then Inl (TypeError ''string indices'') else Inr False
      | _ \<Rightarrow> Inl (TypeError ''not iterable''))"

fun prune_items :: "int \<Rightarrow> (string \<times> pyval) list \<Rightarrow> exn + (string \<times> pyval) list" where
  "prune_items cutoff [] = Inr []"
| "prune_items cutoff ((item, data) # rest) =
     (case keep_item cutoff data of
        Inl e \<Rightarrow> Inl e
      | Inr keep \<Rightarrow>
          (case prune_items cutoff rest of
             Inl e \<Rightarrow> Inl e
           | Inr kept \<Rightarrow> Inr (if keep then (item, data) # kept else kept)))"

text \<open>
  The \<open>if options.max_age > 0:\<close> block of \<open>flushdb\<close>: \<open>len\<close> of the database, the cutoff
  (one clock reading, and the date arithmetic of \<open>datetime\<close>, which may raise), the debug
  line (a second reading), then the comprehension, whose result replaces the database only
  when no item raised.
\<close>

fun prune :: "libs \<Rightarrow> options \<Rightarrow> agent \<times> world \<Rightarrow> (agent \<times> world) \<times> exn option" where
  "prune L opts (self, w) =
     (case database self of
        PDict rows \<Rightarrow>
          (case days_before L (clock L (ticks w)) (max_age opts) of
             Inl e \<Rightarrow> ((self, w\<lparr>ticks := Suc (ticks w)\<rparr>), Some e)
           | Inr cutoff \<Rightarrow>
               (case prune_items cutoff rows of
                  Inl e \<Rightarrow> ((self, w\<lparr>ticks := Suc (Suc (ticks w))\<rparr>), Some e)
                | Inr kept \<Rightarrow>
                    ((self\<lparr>database := PDict kept\<rparr>, w\<lparr>ticks := Suc (Suc (ticks w))\<rparr>), None)))
      | PList xs \<Rightarrow>
          (case days_before L (clock L (ticks w)) (max_age opts) of
             Inl e \<Rightarrow> ((self, w\<lparr>ticks := Suc (ticks w)\<rparr>), Some e)
           | Inr cutoff \<Rightarrow> ((self, w\<lparr>ticks := Suc (Suc (ticks w))\<rparr>), Some (AttributeError ''items'')))
      | PStr str \<Rightarrow>
          (case days_before L (clock L (ticks w)) (max_age opts) of
             Inl e \<Rightarrow> ((self, w\<lparr>ticks := Suc (ticks w)\<rparr>), Some e)
           | Inr cutoff \<Rightarrow> ((self, w\<lparr>ticks := Suc (Suc (ticks w))\<rparr>), Some (AttributeError ''items'')))
      | _ \<Rightarrow> ((self, w), Some (TypeError ''len'')))"

text \<open>\<open>json.dump\<close> raises \<open>TypeError\<close> on an exception object anywhere in the value.\<close>

fun serializable :: "pyval \<Rightarrow> bool" where
  "serializable (PList xs) = (\<forall>x \<in> set xs. serializable x)"
| "serializable (PDict kvs) = (\<forall>kv \<in> set kvs. serializable (snd kv))"
| "serializable (PExn e) = False"
| "serializable v = True"

text \<open>
  The save: skipped without a database file and under dry-run. The write is atomic, so
  when \<open>json.dump\<close> raises, the file on disk is left as it was.
\<close>

fun save :: "libs \<Rightarrow> options \<Rightarrow> agent \<times> world \<Rightarrow> (agent \<times> world) \<times> exn option" where
  "save L opts (self, w) =
     (if database_file self \<noteq> [] \<and> \<not> dry_run opts then
        if serializable (database self)
        then ((self, w\<lparr>files := AList.update (database_file self)
                                 (json_dumps L (database self)) (files w)\<rparr>), None)
        else ((self, w), Some (TypeError ''not JSON serializable''))
      else ((self, w), None))"

definition flushdb :: "libs \<Rightarrow> options \<Rightarrow> agent \<times> world \<Rightarrow> (agent \<times> world) \<times> exn option" where
  "flushdb L opts s =
     (if max_age opts > 0 then
        (case prune L opts s of
           (s', Some e) \<Rightarrow> (s', Some e)
         | (s', None) \<Rightarrow> save L opts s')
      else save L opts s)"

section \<open>A run\<close>

text \<open>
  \<open>process\<close>: every feed in turn, an exception from one feed is logged and dropped; then
  the flush, whose exception is not caught.
\<close>

fun feeds_loop :: "libs \<Rightarrow> options \<Rightarrow> feed_config list \<Rightarrow> agent \<times> world \<Rightarrow> agent \<times> world" where
  "feeds_loop L opts [] s = s"
| "feeds_loop L opts (feed # rest) s = feeds_loop L opts rest (fst (process_feed L opts feed s))"

definition process :: "libs \<Rightarrow> options \<Rightarrow> agent \<times> world \<Rightarrow> (agent \<times> world) \<times> exn option" where
  "process L opts s = flushdb L opts (feeds_loop L opts (feeds (fst s)) s)"

section \<open>Loading the ledger\<close>

text \<open>
  The dict comprehension of the old-format conversion: one clock reading per line, a
  repeated identifier keeps its first position and takes the last value.
\<close>

fun convert_old ::
  "libs \<Rightarrow> string list \<Rightarrow> (string \<times> pyval) list \<Rightarrow> nat \<Rightarrow> (string \<times> pyval) list \<times> nat"
where
  "convert_old L [] rows t = (rows, t)"
| "convert_old L (line # lines) rows t =
     convert_old L lines
       (AList.update (py_strip line) (PDict [(''last_seen'', PNum (clock L t))]) rows) (Suc t)"

text \<open>
  The database part of \<open>DiscordRSS.__init__\<close>, for an agent whose webhook, feeds and
  database file have been read from the configuration. A missing file leaves the database
  empty; text that is not JSON is read as the old format.
\<close>

definition init :: "libs \<Rightarrow> string \<Rightarrow> feed_config list \<Rightarrow> string \<Rightarrow> world \<Rightarrow> agent \<times> world" where
  "init L hook fs dbfile w =
     (let self = \<lparr>webhook = hook, feeds = fs, database_file = dbfile, database = PDict []\<rparr>
      in if dbfile \<noteq> [] then
           (case map_of (files w) dbfile of
              None \<Rightarrow> (self, w)
            | Some dbtext \<Rightarrow>
                (case json_loads L dbtext of
                   Some v \<Rightarrow> (self\<lparr>database := v\<rparr>, w)
                 | None \<Rightarrow>
                     (case convert_old L (py_splitlines dbtext) [] (ticks w) of
                        (rows, t) \<Rightarrow> (self\<lparr>database := PDict rows\<rparr>, w\<lparr>ticks := t\<rparr>))))
         else (self, w))"

text \<open>One invocation of \<open>main\<close> for one configuration: build the agent, then \<open>process\<close>.\<close>

definition run ::
  "libs \<Rightarrow> string \<Rightarrow> feed_config list \<Rightarrow> string \<Rightarrow> options \<Rightarrow> world \<Rightarrow> (agent \<times> world) \<times> exn option"
where
  "run L hook fs dbfile opts w = process L opts (init L hook fs dbfile w)"

section \<open>The extraction policy in the specification's words\<close>

text \<open>
  The specification's image source: the rich-content HTML if present, else the summary
  HTML, else empty.
\<close>

definition image_source :: "entry \<Rightarrow> string" where
  "image_source entry =
     (case e_content entry of
        Some cs \<Rightarrow> (case cs of [] \<Rightarrow> [] | c # rest \<Rightarrow> c)
      | None \<Rightarrow> (case e_summary entry of Some s \<Rightarrow> s | None \<Rightarrow> []))"

text \<open>
  The specification's text source: the summary HTML if present and non-empty, else the
  rich-content HTML, else the empty string.
\<close>

definition text_source :: "entry \<Rightarrow> string" where
  "text_source entry =
     (let rich = (case e_content entry of
                    Some cs \<Rightarrow> (case cs of [] \<Rightarrow> [] | c # rest \<Rightarrow> c)
                  | None \<Rightarrow> [])
      in case e_summary entry of
           Some s \<Rightarrow> if s \<noteq> [] then s else rich
         | None \<Rightarrow> rich)"

section \<open>Reading the ledger\<close>

fun num_of :: "pyval \<Rightarrow> int option" where
  "num_of (PNum n) = Some n"
| "num_of v = None"

text \<open>The numeric \<open>last_seen\<close> of a record, if it has one.\<close>

definition last_seen_of :: "pyval \<Rightarrow> int option" where
  "last_seen_of data =
     (case dict_of data of
        None \<Rightarrow> None
      | Some d \<Rightarrow> (case map_of d ''last_seen'' of None \<Rightarrow> None | Some v \<Rightarrow> num_of v))"

text \<open>
  A record as the agent writes it: a dict whose \<open>last_seen\<close>, when present, is a number.
\<close>

definition timed_record :: "pyval \<Rightarrow> bool" where
  "timed_record data =
     (case dict_of data of
        None \<Rightarrow> False
      | Some d \<Rightarrow> (case map_of d ''last_seen'' of None \<Rightarrow> True | Some v \<Rightarrow> num_of v \<noteq> None))"

text \<open>The record stored under an identifier, when the ledger is a dict.\<close>

definition record_of :: "pyval \<Rightarrow> string \<Rightarrow> pyval option" where
  "record_of db i = (case dict_of db of None \<Rightarrow> None | Some rows \<Rightarrow> map_of rows i)"

text \<open>The \<open>sent\<close> value of the record under an identifier; \<open>None\<close> when it has none.\<close>

definition sent_of :: "pyval \<Rightarrow> string \<Rightarrow> pyval option" where
  "sent_of db i =
     (case record_of db i of
        None \<Rightarrow> None
      | Some r \<Rightarrow> (case dict_of r of None \<Rightarrow> None | Some row \<Rightarrow> map_of row ''sent''))"

text \<open>The record under the identifier has a truthy \<open>sent\<close>.\<close>

definition is_sent :: "pyval \<Rightarrow> string \<Rightarrow> bool" where
  "is_sent db i = (case sent_of db i of None \<Rightarrow> False | Some v \<Rightarrow> truthy v)"

text \<open>A POST that the webhook answered with a status in [200, 300).\<close>

definition delivered :: "post \<Rightarrow> bool" where
  "delivered p = (case p_answer p of Inl e \<Rightarrow> False | Inr (code, body) \<Rightarrow> code div 100 = 2)"

text \<open>The delivery attempts made for an entry identifier, oldest first.\<close>

definition attempts :: "string \<Rightarrow> world \<Rightarrow> post list" where
  "attempts i w = filter (\<lambda>p. p_entry p = Some i) (posts w)"

text \<open>A Python dict has each key once: the ledger, when it is a dict, lists no identifier twice.\<close>

definition distinct_ids :: "pyval \<Rightarrow> bool" where
  "distinct_ids db = (case dict_of db of None \<Rightarrow> True | Some rows \<Rightarrow> distinct (map fst rows))"

section \<open>Sequences of pipeline operations\<close>

text \<open>
  One operation on the agent and the world: the loop body on one entry, a whole feed, the
  pruning, or the flush (pruning and save), with any options and any feed.
\<close>

inductive pipeline_step :: "libs \<Rightarrow> agent \<times> world \<Rightarrow> agent \<times> world \<Rightarrow> bool" for L where
  entry: "entry_step L opts feed meta entry s = (s', x) \<Longrightarrow> pipeline_step L s s'"
| feed: "process_feed L opts feed s = (s', x) \<Longrightarrow> pipeline_step L s s'"
| pruning: "prune L opts s = (s', x) \<Longrightarrow> pipeline_step L s s'"
| flush: "flushdb L opts s = (s', x) \<Longrightarrow> pipeline_step L s s'"

text \<open>
  A sequence of operations after each of which the record under the identifier is in the
  ledger.
\<close>

inductive survives :: "libs \<Rightarrow> string \<Rightarrow> agent \<times> world \<Rightarrow> agent \<times> world \<Rightarrow> bool" for L j where
  start: "survives L j s s"
| step: "survives L j s t \<Longrightarrow> pipeline_step L t u \<Longrightarrow>
         record_of (database (fst u)) j \<noteq> None \<Longrightarrow> survives L j s u"

text \<open>
  How \<open>sent\<close> may differ between two ledgers: not at all, or it was not truthy and is now
  \<open>True\<close> or a clock reading.
\<close>

definition moved_forward :: "libs \<Rightarrow> string \<Rightarrow> pyval \<Rightarrow> pyval \<Rightarrow> bool" where
  "moved_forward L j db db' =
     (sent_of db' j = sent_of db j \<or>
      (\<not> is_sent db j \<and>
       (sent_of db' j = Some (PBool True) \<or> (\<exists>n. sent_of db' j = Some (PNum (clock L n))))))"

section \<open>Example data\<close>

text \<open>
  Concrete collaborators and feed data, used to run the definitions on explicit inputs.
\<close>

definition demo_config :: feed_config where
  "demo_config =
     \<lparr>feed_url = ''http://x/feed'', username = None, avatar_url = None,
      include_summary = False, include_image = True\<rparr>"

definition demo_meta :: feed_meta where
  "demo_meta = \<lparr>f_link = Some ''http://x/'', f_title = Some ''Feed''\<rparr>"

definition demo_entry :: entry where
  "demo_entry =
     \<lparr>e_id = Some ''entry-1'', e_link = Some ''http://x/'', e_title = Some ''Title'',
      e_summary = Some ''<p>Hello <img src='a.png'>world</p>'', e_content = None,
      e_media_content = None\<rparr>"

text \<open>The feed every fetch returns: one entry.\<close>

definition demo_feed :: parsed where
  "demo_feed =
     \<lparr>bozo = False, p_error = None, p_status = Some 200, p_feed = demo_meta,
      p_entries = [demo_entry]\<rparr>"

text \<open>
  The webhook answers 204 to every POST; the scanner and the converter know the summary
  of \<open>demo_entry\<close>; the time zone has no change of offset, so a day is 86400 seconds.
\<close>

definition demo_libs :: libs where
  "demo_libs =
     \<lparr>clock = (\<lambda>n. 1700000000000000 + int n),
      feedparser_parse = (\<lambda>n url. Inr demo_feed),
      requests_post = (\<lambda>n url body. Inr (204, [])),
      json_loads = (\<lambda>s. None),
      json_dumps = (\<lambda>v. ''{}''),
      img_srcs = (\<lambda>html. if html = ''<p>Hello <img src='a.png'>world</p>'' then Inr [''a.png''] else Inr []),
      urljoin = (\<lambda>base rel. Inr (base @ rel)),
      convert_to_markdown = (\<lambda>html. if html = ''<p>Hello <img src='a.png'>world</p>'' then Inr (''Hello world'' @ [CHR 0x0A]) else Inr html),
      py_int = (\<lambda>s. if s = ''600'' then Inr 600 else Inl (ValueError s)),
      days_before = (\<lambda>now n. Inr (now - n * 86400000000))\<rparr>"

text \<open>The same collaborators with a webhook that answers 429 to every POST.\<close>

definition rate_limited_libs :: libs where
  "rate_limited_libs = demo_libs\<lparr>requests_post := (\<lambda>n url body. Inr (429, ''rate limited''))\<rparr>"

text \<open>A normal run: no dry-run, no populate, 30 days of retention.\<close>

definition live_options :: options where
  "live_options = \<lparr>dry_run = False, populate = False, max_age = 30\<rparr>"

text \<open>An entry without a title: building its payload raises.\<close>

definition untitled_entry :: entry where
  "untitled_entry =
     \<lparr>e_id = Some ''entry-0'', e_link = Some ''http://x/0'', e_title = None,
      e_summary = Some ''text'', e_content = None, e_media_content = None\<rparr>"

definition two_media :: "(string \<times> string) list list" where
  "two_media =
     [[(''medium'', ''image''), (''url'', ''http://x/big.png''), (''height'', ''600'')],
      [(''medium'', ''thumbnail''), (''url'', ''http://x/small.png'')]]"

definition video_media :: "(string \<times> string) list list" where
  "video_media = [[(''medium'', ''video''), (''url'', ''http://x/clip.mp4'')]]"

definition demo_video_entry :: entry where
  "demo_video_entry = demo_entry\<lparr>e_media_content := Some video_media\<rparr>"

definition demo_agent :: agent where
  "demo_agent =
     \<lparr>webhook = ''http://hook'', feeds = [demo_config], database_file = ''db.json'',
      database = PDict []\<rparr>"

definition demo_world :: world where
  "demo_world = \<lparr>ticks = 0, fetches = 0, posts = [], files = []\<rparr>"

text \<open>
  Three records for a flush at time 1700000000000000 with a retention of 30 days: one
  last seen 31 days before, one 29 days before, one without \<open>last_seen\<close>.
\<close>

definition aged_rows :: "(string \<times> pyval) list" where
  "aged_rows =
     [(''old'', PDict [(''url'', PStr ''http://x/1''), (''last_seen'', PNum 1697321600000000)]),
      (''fresh'', PDict [(''url'', PStr ''http://x/2''), (''last_seen'', PNum 1697494400000000)]),
      (''bare'', PDict [(''url'', PStr ''http://x/3'')])]"

text \<open>A world whose ledger file is in the old format: two identifiers, one per line.\<close>

definition legacy_world :: world where
  "legacy_world =
     \<lparr>ticks = 0, fetches = 0, posts = [],
      files = [(''db.json'', ''entry-1'' @ [CHR 0x0A] @ ''entry-2'')]\<rparr>"

text \<open>Dry-run, without and with populate.\<close>

definition dry_options :: options where
  "dry_options = \<lparr>dry_run = True, populate = False, max_age = 30\<rparr>"

definition dry_populate_options :: options where
  "dry_populate_options = \<lparr>dry_run = True, populate = True, max_age = 30\<rparr>"

text \<open>
  A ledger file holding the single token \<open>12345\<close>, and a JSON parser that reads it as
  the number it is (and rejects everything else).
\<close>

definition number_world :: world where
  "number_world = \<lparr>ticks = 0, fetches = 0, posts = [], files = [(''db.json'', ''12345'')]\<rparr>"

definition json_libs :: libs where
  "json_libs = demo_libs\<lparr>json_loads := (\<lambda>s. if s = ''12345'' then Some (PNum 12345) else None)\<rparr>"

text \<open>A feed with an entry that fails (no title) before a good one.\<close>

definition mixed_libs :: libs where
  "mixed_libs =
     demo_libs\<lparr>feedparser_parse :=
        (\<lambda>n url. Inr (demo_feed\<lparr>p_entries := [untitled_entry, demo_entry]\<rparr>))\<rparr>"

text \<open>
  A feed of two good entries and a webhook that answers 204 to the first POST it ever
  gets and 429 to every later one.
\<close>

definition second_entry :: entry where
  "second_entry =
     \<lparr>e_id = Some ''entry-2'', e_link = Some ''http://x/2'', e_title = Some ''Second'',
      e_summary = Some ''more'', e_content = None, e_media_content = None\<rparr>"

definition flaky_libs :: libs where
  "flaky_libs =
     demo_libs\<lparr>feedparser_parse :=
                  (\<lambda>n url. Inr (demo_feed\<lparr>p_entries := [demo_entry, second_entry]\<rparr>)),
               requests_post :=
                  (\<lambda>n url body. if n = 0 then Inr (204, []) else Inr (429, ''rate limited''))\<rparr>"

text \<open>
  The demo agent after its feed has been processed once (the entry is delivered), and
  after the feed has been processed a second time and the ledger flushed.
\<close>

definition once_fed :: "agent \<times> world" where
  "once_fed = fst (process_feed demo_libs live_options demo_config (demo_agent, demo_world))"

definition fed_again :: "agent \<times> world" where
  "fed_again = fst (process_feed demo_libs live_options demo_config once_fed)"

definition then_flushed :: "agent \<times> world" where
  "then_flushed = fst (flushdb demo_libs live_options fed_again)"

section \<open>Basic facts\<close>

declare entry_step.simps [simp del]
declare process_feed.simps [simp del]
declare prune.simps [simp del]
declare save.simps [simp del]

lemma andthen_Inl [simp]: "andthen (Inl e) f = Inl e"
  by (simp add: andthen_def)

lemma andthen_Inr [simp]: "andthen (Inr x) f = f x"
  by (simp add: andthen_def)

lemma andthen_eq_Inr: "andthen m f = Inr y \<longleftrightarrow> (\<exists>x. m = Inr x \<and> f x = Inr y)"
  by (cases m) auto

lemma andthen_eq_Inl: "andthen m f = Inl e \<longleftrightarrow> m = Inl e \<or> (\<exists>x. m = Inr x \<and> f x = Inl e)"
  by (cases m) auto

lemma map_of_update: "map_of (AList.update k v al) k' = (if k' = k then Some v else map_of al k')"
  by (simp add: AList.update_conv')

lemma attach_media_other:
  "attach_media L items emb = Inr emb' \<Longrightarrow> k \<noteq> ''image'' \<Longrightarrow> k \<noteq> ''thumbnail'' \<Longrightarrow>
   map_of emb' k = map_of emb k"
proof (induction items arbitrary: emb)
  case Nil
  then show ?case by simp
next
  case (Cons item items)
  then show ?case
    by (auto simp: map_of_update split: option.splits if_splits sum.splits)
qed

lemma attach_media_present:
  "attach_media L items emb = Inr emb' \<Longrightarrow> map_of emb m = Some v \<Longrightarrow> map_of emb' m = Some v"
proof (induction items arbitrary: emb)
  case Nil
  then show ?case by simp
next
  case (Cons item items)
  from Cons.prems(1) obtain medium where medium: "map_of item ''medium'' = Some medium"
    by (auto split: option.splits)
  show ?case
  proof (cases "(medium = ''image'' \<or> medium = ''thumbnail'') \<and> map_of emb medium = None")
    case True
    with Cons.prems(1) medium obtain obj
      where rest: "attach_media L items (AList.update medium obj emb) = Inr emb'"
      by (auto split: sum.splits)
    from True Cons.prems(2) have "medium \<noteq> m" by auto
    with Cons.prems(2) have "map_of (AList.update medium obj emb) m = Some v"
      by (simp add: map_of_update)
    with rest show ?thesis by (rule Cons.IH)
  next
    case False
    with Cons.prems(1) medium have "attach_media L items emb = Inr emb'"
      by (auto split: if_splits)
    then show ?thesis using Cons.prems(2) by (rule Cons.IH)
  qed
qed

lemma attach_media_first:
  "attach_media L items emb = Inr emb' \<Longrightarrow> m = ''image'' \<or> m = ''thumbnail'' \<Longrightarrow>
   map_of emb m = None \<Longrightarrow>
   (case find (\<lambda>item. map_of item ''medium'' = Some m) items of
      None \<Rightarrow> map_of emb' m = None
    | Some item \<Rightarrow> (\<exists>obj. media_object L item = Inr obj \<and> map_of emb' m = Some obj))"
proof (induction items arbitrary: emb)
  case Nil
  then show ?case by simp
next
  case (Cons item items)
  show ?case
  proof (cases "map_of item ''medium'' = Some m")
    case True
    with Cons.prems obtain obj where obj: "media_object L item = Inr obj"
      and rest: "attach_media L items (AList.update m obj emb) = Inr emb'"
      by (auto split: sum.splits)
    have "map_of emb' m = Some obj"
      using attach_media_present [OF rest, of m obj] by (simp add: map_of_update)
    with True obj show ?thesis by simp
  next
    case False
    with Cons.prems obtain emb1 where rest: "attach_media L items emb1 = Inr emb'"
      and keep: "map_of emb1 m = None"
      by (auto simp: map_of_update split: option.splits if_splits sum.splits)
    from Cons.IH [OF rest Cons.prems(2) keep] False show ?thesis by simp
  qed
qed

lemma attach_media_distinct:
  "attach_media L items emb = Inr emb' \<Longrightarrow> distinct (map fst emb) \<Longrightarrow> distinct (map fst emb')"
proof (induction items arbitrary: emb)
  case Nil
  then show ?case by simp
next
  case (Cons item items)
  from Cons.prems obtain emb1
    where "attach_media L items emb1 = Inr emb'" and "distinct (map fst emb1)"
    by (auto simp: AList.distinct_update split: option.splits if_splits sum.splits)
  then show ?case by (rule Cons.IH)
qed

lemma build_payload_embed:
  "build_payload L config feed entry = Inr payload \<Longrightarrow>
   \<exists>emb. build_embed L config feed entry = Inr emb \<and>
         payload = PDict (sender_fields config @ [(''embeds'', PList [PDict emb])])"
  by (auto simp: build_payload_def andthen_eq_Inr)

lemma build_embed_attach:
  "build_embed L config feed entry = Inr emb \<Longrightarrow>
   \<exists>md_text images base.
     get_content L entry = Inr (md_text, images) \<and>
     attach_image L config entry images base = Inr emb \<and>
     map fst base = [''type'', ''url'', ''author'', ''description'']"
  by (fastforce simp: build_embed_def andthen_eq_Inr split: prod.splits)

section \<open>Substrings under \<open>strip\<close> and \<open>replace\<close>\<close>

lemma sublist_dropWhile_keep:
  "sublist w xs \<Longrightarrow> w \<noteq> [] \<Longrightarrow> \<not> P (hd w) \<Longrightarrow> sublist w (dropWhile P xs)"
proof (induction xs)
  case Nil
  then show ?case by simp
next
  case (Cons x xs)
  show ?case
  proof (cases "P x")
    case True
    from Cons.prems(1) have "prefix w (x # xs) \<or> sublist w xs"
      by (simp add: sublist_Cons_right)
    moreover have "\<not> prefix w (x # xs)"
    proof
      assume "prefix w (x # xs)"
      with Cons.prems(2) have "hd w = x" by (cases w) auto
      with True Cons.prems(3) show False by simp
    qed
    ultimately have "sublist w xs" by simp
    with Cons.IH Cons.prems(2,3) True show ?thesis by simp
  next
    case False
    with Cons.prems(1) show ?thesis by simp
  qed
qed

lemma py_strip_sublist: "sublist (py_strip s) s"
proof -
  have "sublist (dropWhile py_isspace (rev (dropWhile py_isspace s))) (rev (dropWhile py_isspace s))"
    by simp
  then have "sublist (py_strip s) (dropWhile py_isspace s)"
    by (simp add: py_strip_def sublist_rev_left)
  moreover have "sublist (dropWhile py_isspace s) s" by simp
  ultimately show ?thesis by (rule sublist_order.order_trans)
qed

lemma py_strip_keeps:
  assumes "sublist w s" and "w \<noteq> []" and "\<forall>c \<in> set w. \<not> py_isspace c"
  shows "sublist w (py_strip s)"
proof -
  from assms(2,3) have first: "\<not> py_isspace (hd w)" and final: "\<not> py_isspace (hd (rev w))"
    by (simp_all add: hd_rev)
  from assms(1,2) first have "sublist w (dropWhile py_isspace s)"
    by (rule sublist_dropWhile_keep)
  then have "sublist (rev w) (rev (dropWhile py_isspace s))" by simp
  with assms(2) final
  have "sublist (rev w) (dropWhile py_isspace (rev (dropWhile py_isspace s)))"
    by (intro sublist_dropWhile_keep) simp_all
  then show ?thesis by (simp add: py_strip_def sublist_rev_right)
qed

lemma py_replace_tab_append: "py_replace_tab (xs @ ys) = py_replace_tab xs @ py_replace_tab ys"
  by (simp add: py_replace_tab_def)

lemma py_replace_tab_id: "\<forall>c \<in> set w. c \<noteq> CHR 0x09 \<Longrightarrow> py_replace_tab w = w"
  by (induction w) (simp_all add: py_replace_tab_def)

lemma py_replace_tab_keeps:
  assumes "sublist w s" and "\<forall>c \<in> set w. c \<noteq> CHR 0x09"
  shows "sublist w (py_replace_tab s)"
proof -
  from assms(1) obtain ps ss where "s = ps @ w @ ss" by (auto simp: sublist_def)
  then have "py_replace_tab s = py_replace_tab ps @ w @ py_replace_tab ss"
    using assms(2) by (simp add: py_replace_tab_append py_replace_tab_id)
  then show ?thesis by simp
qed

lemma py_replace_tab_Cons:
  "py_replace_tab (c # s) =
     (if c = CHR 0x09 then CHR 0x20 # CHR 0x20 # py_replace_tab s else c # py_replace_tab s)"
  by (simp add: py_replace_tab_def)

lemma prefix_py_replace_tab:
  "prefix w (py_replace_tab s) \<Longrightarrow> \<forall>c \<in> set w. c \<noteq> CHR 0x20 \<Longrightarrow> prefix w s"
proof (induction s arbitrary: w)
  case Nil
  then show ?case by (simp add: py_replace_tab_def)
next
  case (Cons c s)
  show ?case
  proof (cases w)
    case Nil
    then show ?thesis by simp
  next
    case (Cons a w')
    with Cons.prems show ?thesis
      by (auto simp: py_replace_tab_Cons Cons.IH split: if_splits)
  qed
qed

lemma sublist_py_replace_tab:
  "sublist w (py_replace_tab s) \<Longrightarrow> \<forall>c \<in> set w. c \<noteq> CHR 0x20 \<Longrightarrow> sublist w s"
proof (induction s)
  case Nil
  then show ?case by (simp add: py_replace_tab_def)
next
  case (Cons c s)
  show ?case
  proof (cases "prefix w (py_replace_tab (c # s))")
    case True
    from True Cons.prems(2) have "prefix w (c # s)" by (rule prefix_py_replace_tab)
    then show ?thesis by (simp add: sublist_Cons_right)
  next
    case False
    have "sublist w (py_replace_tab s)"
    proof (cases "c = CHR 0x09")
      case True
      with Cons.prems(1) False
      have "sublist w (CHR 0x20 # py_replace_tab s)"
        by (simp add: py_replace_tab_Cons sublist_Cons_right)
      moreover have "\<not> prefix w (CHR 0x20 # py_replace_tab s)"
      proof
        assume p: "prefix w (CHR 0x20 # py_replace_tab s)"
        show False
        proof (cases w)
          case Nil
          with False show False by simp
        next
          case (Cons a w')
          with p Cons.prems(2) show False by auto
        qed
      qed
      ultimately show ?thesis by (simp add: sublist_Cons_right)
    next
      case False
      with Cons.prems(1) \<open>\<not> prefix w (py_replace_tab (c # s))\<close> show ?thesis
        by (simp add: py_replace_tab_Cons sublist_Cons_right)
    qed
    with Cons.IH Cons.prems(2) show ?thesis by (simp add: sublist_Cons_right)
  qed
qed

section \<open>One entry\<close>

lemma dict_of_Some: "dict_of v = Some d \<longleftrightarrow> v = PDict d"
  by (cases v) auto

lemma process_entry_self:
  "process_entry L (self\<lparr>database := d\<rparr>) opts feed meta entry row w =
   process_entry L self opts feed meta entry row w"
  by (simp add: process_entry_def Let_def cong: sum.case_cong if_cong)

lemma row_step_self:
  "row_step L (self\<lparr>database := d\<rparr>) opts feed meta entry link row w =
   row_step L self opts feed meta entry link row w"
  by (simp add: row_step_def process_entry_self Let_def cong: if_cong)

text \<open>What \<open>process_entry\<close> can do: nothing, or one POST.\<close>

lemma process_entry_cases:
  assumes "process_entry L self opts feed meta entry row w = (res, row', w')"
  shows "(w' = w \<and> row' = row \<and> res \<noteq> Inr True) \<or>
         (\<not> dry_run opts \<and>
          (\<exists>p. w' = w\<lparr>posts := posts w @ [p]\<rparr> \<and> p_entry p = e_id entry \<and>
                (res = Inr True \<longleftrightarrow> delivered p) \<and>
                (\<forall>k. k \<noteq> ''errors'' \<longrightarrow> map_of row' k = map_of row k) \<and>
                (delivered p \<longrightarrow> row' = row)))"
proof (cases "build_payload L feed meta entry")
  case (Inl e)
  with assms show ?thesis by (auto simp: process_entry_def)
next
  case (Inr payload)
  show ?thesis
  proof (cases "dry_run opts")
    case True
    with assms Inr show ?thesis by (auto simp: process_entry_def)
  next
    case False
    let ?p = "\<lparr>p_entry = e_id entry, p_url = webhook self, p_body = payload,
               p_answer = requests_post L (length (posts w)) (webhook self) payload\<rparr>"
    from assms Inr False have "w' = w\<lparr>posts := posts w @ [?p]\<rparr>"
      and "p_entry ?p = e_id entry"
      and "res = Inr True \<longleftrightarrow> delivered ?p"
      and "\<forall>k. k \<noteq> ''errors'' \<longrightarrow> map_of row' k = map_of row k"
      and "delivered ?p \<longrightarrow> row' = row"
      by (auto simp: process_entry_def Let_def delivered_def map_of_update
               split: sum.splits if_splits prod.splits)
    with False show ?thesis by blast
  qed
qed


lemma refreshed_sent:
  "map_of (AList.update ''last_seen'' t (AList.update ''url'' u row)) ''sent'' = map_of row ''sent''"
  by (simp add: map_of_update)

lemma refreshed_truthy:
  "get_truthy (AList.update ''last_seen'' t (AList.update ''url'' u row)) ''sent'' =
   get_truthy row ''sent''"
  by (simp add: get_truthy_def refreshed_sent)

text \<open>A row whose \<open>sent\<close> is truthy is only refreshed.\<close>

lemma row_step_sent:
  "get_truthy row0 ''sent'' \<Longrightarrow>
   row_step L self opts feed meta entry link row0 w =
     (AList.update ''last_seen'' (PNum (clock L (ticks w))) (AList.update ''url'' (PStr link) row0),
      w\<lparr>ticks := Suc (ticks w)\<rparr>)"
  by (simp add: row_step_def Let_def refreshed_truthy)

text \<open>
  The effect of \<open>row_step\<close> on the world and on \<open>sent\<close>: at most one POST, none for a
  row already sent, under populate or under dry-run; \<open>sent\<close> is left as it was, or set
  from a falsy value to \<open>True\<close> (populate) or to the clock reading (a delivered POST).
\<close>

lemma row_step_cases:
  assumes "row_step L self opts feed meta entry link row0 w = (row', w')"
  shows "ticks w' = Suc (ticks w) \<and> files w' = files w \<and> fetches w' = fetches w \<and>
         ((posts w' = posts w \<and>
           (map_of row' ''sent'' = map_of row0 ''sent'' \<or>
            (\<not> get_truthy row0 ''sent'' \<and> populate opts \<and>
             map_of row' ''sent'' = Some (PBool True)))) \<or>
          (\<not> get_truthy row0 ''sent'' \<and> \<not> populate opts \<and> \<not> dry_run opts \<and>
           (\<exists>p. posts w' = posts w @ [p] \<and> p_entry p = e_id entry \<and>
                (if delivered p then map_of row' ''sent'' = Some (PNum (clock L (ticks w)))
                 else map_of row' ''sent'' = map_of row0 ''sent''))))"
proof (cases "get_truthy row0 ''sent''")
  case True
  with assms show ?thesis by (auto simp: row_step_sent refreshed_sent)
next
  case unsent: False
  let ?now = "clock L (ticks w)"
  let ?w1 = "w\<lparr>ticks := Suc (ticks w)\<rparr>"
  let ?row = "AList.update ''last_seen'' (PNum ?now) (AList.update ''url'' (PStr link) row0)"
  show ?thesis
  proof (cases "populate opts")
    case True
    with assms unsent show ?thesis
      by (auto simp: row_step_def Let_def refreshed_truthy map_of_update)
  next
    case False
    obtain res row1 w2 where pe: "process_entry L self opts feed meta entry ?row ?w1 = (res, row1, w2)"
      by (cases "process_entry L self opts feed meta entry ?row ?w1") auto
    from assms unsent False pe
    have out: "w' = w2"
      and sent: "map_of row' ''sent'' =
                   (if res = Inr True then Some (PNum ?now) else map_of row1 ''sent'')"
      by (auto simp: row_step_def Let_def refreshed_truthy map_of_update split: sum.splits)
    from process_entry_cases [OF pe] show ?thesis
    proof
      assume "w2 = ?w1 \<and> row1 = ?row \<and> res \<noteq> Inr True"
      with out sent show ?thesis by (simp add: refreshed_sent)
    next
      assume "\<not> dry_run opts \<and>
          (\<exists>p. w2 = ?w1\<lparr>posts := posts ?w1 @ [p]\<rparr> \<and> p_entry p = e_id entry \<and>
                (res = Inr True \<longleftrightarrow> delivered p) \<and>
                (\<forall>k. k \<noteq> ''errors'' \<longrightarrow> map_of row1 k = map_of ?row k) \<and>
                (delivered p \<longrightarrow> row1 = ?row))"
      then obtain p where live: "\<not> dry_run opts"
        and w2: "w2 = ?w1\<lparr>posts := posts ?w1 @ [p]\<rparr>" and p: "p_entry p = e_id entry"
        and res: "res = Inr True \<longleftrightarrow> delivered p"
        and keys: "\<forall>k. k \<noteq> ''errors'' \<longrightarrow> map_of row1 k = map_of ?row k"
        by blast
      from keys have "map_of row1 ''sent'' = map_of row0 ''sent''"
        by (simp add: refreshed_sent)
      with sent res have "if delivered p then map_of row' ''sent'' = Some (PNum ?now)
                 else map_of row' ''sent'' = map_of row0 ''sent''"
        by simp
      with out w2 p live unsent False show ?thesis by auto
    qed
  qed
qed


lemma entry_step_agent:
  "entry_step L opts feed meta entry (self, w) = ((self', w'), x) \<Longrightarrow>
   webhook self' = webhook self \<and> feeds self' = feeds self \<and>
   database_file self' = database_file self"
  by (auto simp: entry_step.simps Let_def split: option.splits prod.splits if_splits)

text \<open>
  The three ways the loop body ends: it raises before touching the ledger; it creates the
  empty record and raises on the missing link; or it runs \<open>row_step\<close> on the record
  (the existing one, or the new empty one) and stores the result.
\<close>

lemma entry_step_cases:
  assumes "entry_step L opts feed meta entry (self, w) = ((self', w'), x)"
  shows "(database self' = database self \<and> w' = w \<and> x \<noteq> None) \<or>
         (\<exists>i rows0. e_id entry = Some i \<and> database self = PDict rows0 \<and>
            map_of rows0 i = None \<and>
            database self' = PDict (AList.update i (PDict []) rows0) \<and> w' = w \<and> x \<noteq> None) \<or>
         (\<exists>i rows0 link row0 row'.
            e_id entry = Some i \<and> e_link entry = Some link \<and> database self = PDict rows0 \<and>
            (case map_of rows0 i of None \<Rightarrow> row0 = [] | Some r \<Rightarrow> r = PDict row0) \<and>
            row_step L self opts feed meta entry link row0 w = (row', w') \<and>
            database self' = PDict (AList.update i (PDict row') rows0) \<and> x = None)"
proof (cases "e_id entry")
  case None
  with assms show ?thesis by (auto simp: entry_step.simps)
next
  case (Some i)
  note ident = this
  show ?thesis
  proof (cases "dict_of (database self)")
    case None
    with assms ident show ?thesis by (auto simp: entry_step.simps)
  next
    case (Some rows0)
    then have db: "database self = PDict rows0" by (simp add: dict_of_Some)
    let ?rows = "if map_of rows0 i = None then AList.update i (PDict []) rows0 else rows0"
    obtain r where r: "map_of ?rows i = Some r"
      and r_def: "case map_of rows0 i of None \<Rightarrow> r = PDict [] | Some r0 \<Rightarrow> r = r0"
      by (cases "map_of rows0 i") (auto simp: map_of_update)
    show ?thesis
    proof (cases "e_link entry")
      case None
      with assms ident db r show ?thesis
        by (auto simp: entry_step.simps Let_def split: if_splits)
    next
      case (Some link)
      note link = this
      show ?thesis
      proof (cases "dict_of r")
        case None
        with r_def have "map_of rows0 i \<noteq> None" by (auto split: option.splits)
        with assms ident db r link None show ?thesis
          by (auto simp: entry_step.simps Let_def)
      next
        case (Some row0)
        then have row0: "r = PDict row0" by (simp add: dict_of_Some)
        obtain row' w2 where step: "row_step L self opts feed meta entry link row0 w = (row', w2)"
          by (cases "row_step L self opts feed meta entry link row0 w") auto
        from assms ident db r link row0 step
        have "database self' = PDict (AList.update i (PDict row') ?rows)" and "w' = w2" and "x = None"
          by (auto simp: entry_step.simps Let_def row_step_self split: if_splits)
        moreover have "AList.update i (PDict row') ?rows = AList.update i (PDict row') rows0"
          by simp
        moreover from r_def row0 have "case map_of rows0 i of None \<Rightarrow> row0 = [] | Some r \<Rightarrow> r = PDict row0"
          by (auto split: option.splits)
        ultimately show ?thesis using ident link db step by auto
      qed
    qed
  qed
qed


lemma sent_of_PDict:
  "sent_of (PDict rows) j =
     (case map_of rows j of
        None \<Rightarrow> None
      | Some r \<Rightarrow> (case dict_of r of None \<Rightarrow> None | Some row \<Rightarrow> map_of row ''sent''))"
  by (simp add: sent_of_def record_of_def)

lemma sent_of_update:
  "sent_of (PDict (AList.update i (PDict row) rows)) j =
     (if j = i then map_of row ''sent'' else sent_of (PDict rows) j)"
  by (simp add: sent_of_PDict map_of_update)

lemma sent_of_row0:
  assumes "case map_of rows0 i of None \<Rightarrow> row0 = [] | Some r \<Rightarrow> r = PDict row0"
  shows "sent_of (PDict rows0) i = map_of row0 ''sent''"
    and "is_sent (PDict rows0) i = get_truthy row0 ''sent''"
  using assms by (auto simp: sent_of_PDict is_sent_def get_truthy_def split: option.splits)

lemma entry_step_world:
  assumes "entry_step L opts feed meta entry (self, w) = ((self', w'), x)"
  shows "files w' = files w \<and> fetches w' = fetches w"
  using entry_step_cases [OF assms] row_step_cases by fastforce

text \<open>
  One pass of the loop body changes the \<open>sent\<close> of no record but the entry's own, and
  that one only from a falsy value to \<open>True\<close> (populate) or to the clock reading.
\<close>

lemma entry_step_sent:
  assumes "entry_step L opts feed meta entry (self, w) = ((self', w'), x)"
  shows "sent_of (database self') j = sent_of (database self) j \<or>
         (\<not> is_sent (database self) j \<and> e_id entry = Some j \<and>
          ((populate opts \<and> sent_of (database self') j = Some (PBool True)) \<or>
           (\<not> populate opts \<and> \<not> dry_run opts \<and>
            sent_of (database self') j = Some (PNum (clock L (ticks w))))))"
  using entry_step_cases [OF assms]
proof (elim disjE exE conjE)
  assume "database self' = database self"
  then show ?thesis by simp
next
  fix i rows0
  assume "database self = PDict rows0" "map_of rows0 i = None"
    "database self' = PDict (AList.update i (PDict []) rows0)"
  then show ?thesis by (simp add: sent_of_update) (simp add: sent_of_PDict)
next
  fix i rows0 link row0 row'
  assume ident: "e_id entry = Some i" and db: "database self = PDict rows0"
    and row0: "case map_of rows0 i of None \<Rightarrow> row0 = [] | Some r \<Rightarrow> r = PDict row0"
    and step: "row_step L self opts feed meta entry link row0 w = (row', w')"
    and db': "database self' = PDict (AList.update i (PDict row') rows0)"
  show ?thesis
  proof (cases "j = i")
    case False
    with db db' show ?thesis by (simp add: sent_of_update)
  next
    case True
    from db' True have after: "sent_of (database self') j = map_of row' ''sent''"
      by (simp add: sent_of_update)
    from db True sent_of_row0 [OF row0]
    have before: "sent_of (database self) j = map_of row0 ''sent''"
      and truthy: "is_sent (database self) j = get_truthy row0 ''sent''"
      by simp_all
    from row_step_cases [OF step] show ?thesis
      unfolding after before truthy using ident True
      by (auto split: if_splits)
  qed
qed


text \<open>
  One pass of the loop body issues at most one POST, and only for an entry whose record
  is not yet sent, outside populate and dry-run; a delivered POST leaves the record sent
  at the clock reading.
\<close>

lemma entry_step_posts:
  assumes "entry_step L opts feed meta entry (self, w) = ((self', w'), x)"
  shows "posts w' = posts w \<or>
         (\<exists>p i. posts w' = posts w @ [p] \<and> p_entry p = Some i \<and> e_id entry = Some i \<and>
            \<not> is_sent (database self) i \<and> \<not> dry_run opts \<and> \<not> populate opts \<and>
            (delivered p \<longrightarrow> sent_of (database self') i = Some (PNum (clock L (ticks w)))))"
  using entry_step_cases [OF assms]
proof (elim disjE exE conjE)
  assume "w' = w"
  then show ?thesis by simp
next
  fix i rows0
  assume "w' = w"
  then show ?thesis by simp
next
  fix i rows0 link row0 row'
  assume ident: "e_id entry = Some i" and db: "database self = PDict rows0"
    and row0: "case map_of rows0 i of None \<Rightarrow> row0 = [] | Some r \<Rightarrow> r = PDict row0"
    and step: "row_step L self opts feed meta entry link row0 w = (row', w')"
    and db': "database self' = PDict (AList.update i (PDict row') rows0)"
  from db' have after: "sent_of (database self') i = map_of row' ''sent''"
    by (simp add: sent_of_update)
  from db sent_of_row0 [OF row0]
  have truthy: "is_sent (database self) i = get_truthy row0 ''sent''"
    by simp
  from row_step_cases [OF step] ident after truthy show ?thesis
    by (auto split: if_splits)
qed

lemma record_of_update:
  "record_of (PDict (AList.update i r rows)) j = (if j = i then Some r else record_of (PDict rows) j)"
  by (simp add: record_of_def map_of_update)

lemma entry_step_records:
  assumes "entry_step L opts feed meta entry (self, w) = ((self', w'), x)"
      and "record_of (database self) j \<noteq> None"
  shows "record_of (database self') j \<noteq> None"
  using entry_step_cases [OF assms(1)] assms(2)
  by (auto simp: record_of_update)

lemma distinct_ids_update:
  "distinct_ids (PDict rows) \<Longrightarrow> distinct_ids (PDict (AList.update i r rows))"
  by (simp add: distinct_ids_def AList.distinct_update)

lemma entry_step_distinct:
  assumes "entry_step L opts feed meta entry (self, w) = ((self', w'), x)"
      and "distinct_ids (database self)"
  shows "distinct_ids (database self')"
  using entry_step_cases [OF assms(1)] assms(2)
  by (auto simp: distinct_ids_update)

section \<open>Loops\<close>

text \<open>A property that every pass of the loop body preserves holds after the loop.\<close>

lemma entries_loop_invariant:
  assumes "entries_loop L opts feed meta entries s = (s', x)"
      and "P s"
      and "\<And>entry t t' y. P t \<Longrightarrow> entry_step L opts feed meta entry t = (t', y) \<Longrightarrow> P t'"
  shows "P s'"
  using assms(1,2)
proof (induction entries arbitrary: s)
  case Nil
  then show ?case by simp
next
  case (Cons entry entries)
  obtain t y where step: "entry_step L opts feed meta entry s = (t, y)"
    by (cases "entry_step L opts feed meta entry s")
  with Cons.prems(2) have t: "P t" by (rule assms(3))
  show ?case
  proof (cases y)
    case None
    with Cons.prems(1) step have "entries_loop L opts feed meta entries t = (s', x)" by simp
    with t show ?thesis by (rule Cons.IH[rotated])
  next
    case (Some e)
    with Cons.prems(1) step have "s' = t" by simp
    with t show ?thesis by simp
  qed
qed

lemma process_feed_invariant:
  assumes "process_feed L opts feed (self, w) = (s', x)"
      and "P (self, w\<lparr>fetches := Suc (fetches w)\<rparr>)"
      and "\<And>meta entry t t' y. P t \<Longrightarrow> entry_step L opts feed meta entry t = (t', y) \<Longrightarrow> P t'"
  shows "P s'"
proof (cases "feedparser_parse L (fetches w) (feed_url feed)")
  case (Inl e)
  with assms(1,2) show ?thesis by (auto simp: process_feed.simps Let_def)
next
  case (Inr data)
  show ?thesis
  proof (cases "bozo data")
    case True
    with assms(1,2) Inr show ?thesis
      by (auto simp: process_feed.simps Let_def split: option.splits)
  next
    case False
    with assms(1) Inr
    have "entries_loop L opts feed (p_feed data) (p_entries data)
            (self, w\<lparr>fetches := Suc (fetches w)\<rparr>) = (s', x)"
      by (simp add: process_feed.simps Let_def)
    then show ?thesis using assms(2,3) by (rule entries_loop_invariant)
  qed
qed

lemma feeds_loop_invariant:
  assumes "P s"
      and "\<And>self w. P (self, w) \<Longrightarrow> P (self, w\<lparr>fetches := Suc (fetches w)\<rparr>)"
      and "\<And>feed meta entry t t' y. feed \<in> set fs \<Longrightarrow> P t \<Longrightarrow>
             entry_step L opts feed meta entry t = (t', y) \<Longrightarrow> P t'"
  shows "P (feeds_loop L opts fs s)"
  using assms
proof (induction fs arbitrary: s)
  case Nil
  then show ?case by simp
next
  case (Cons feed fs)
  obtain self w where s: "s = (self, w)" by (cases s)
  obtain s1 x where run: "process_feed L opts feed (self, w) = (s1, x)"
    by (cases "process_feed L opts feed (self, w)")
  have "P s1"
    using run
  proof (rule process_feed_invariant)
    from Cons.prems(1) s show "P (self, w\<lparr>fetches := Suc (fetches w)\<rparr>)"
      by (simp add: Cons.prems(2))
  next
    fix meta entry t t' y
    assume "P t" "entry_step L opts feed meta entry t = (t', y)"
    then show "P t'" by (rule Cons.prems(3) [rotated]) simp
  qed
  then have "P (feeds_loop L opts fs s1)"
  proof (rule Cons.IH)
    show "\<And>self w. P (self, w) \<Longrightarrow> P (self, w\<lparr>fetches := Suc (fetches w)\<rparr>)"
      by (rule Cons.prems(2))
  next
    fix f meta entry t t' y
    assume "f \<in> set fs" "P t" "entry_step L opts f meta entry t = (t', y)"
    then show "P t'" using Cons.prems(3) [of f t meta entry t' y] by simp
  qed
  with s run show ?case by simp
qed

section \<open>The flush\<close>

lemma prune_items_filter:
  "prune_items cutoff rows = Inr kept \<Longrightarrow>
   kept = filter (\<lambda>(k, data). keep_item cutoff data = Inr True) rows"
proof (induction rows arbitrary: kept)
  case Nil
  then show ?case by simp
next
  case (Cons row rows)
  obtain k data where row: "row = (k, data)" by (cases row)
  from Cons.prems row obtain keep rest
    where "keep_item cutoff data = Inr keep" and rest: "prune_items cutoff rows = Inr rest"
      and "kept = (if keep then (k, data) # rest else rest)"
    by (auto split: sum.splits)
  with Cons.IH [OF rest] row show ?case by auto
qed

text \<open>Pruning touches nothing but the clock and the ledger, which it leaves or filters.\<close>

lemma prune_cases:
  assumes "prune L opts (self, w) = ((self', w'), x)"
  shows "posts w' = posts w \<and> files w' = files w \<and> fetches w' = fetches w \<and>
         database_file self' = database_file self \<and>
         (database self' = database self \<or>
          (\<exists>rows keep. database self = PDict rows \<and> database self' = PDict (filter keep rows)))"
proof (cases "database self")
  case (PDict rows)
  show ?thesis
  proof (cases "days_before L (clock L (ticks w)) (max_age opts)")
    case (Inl e)
    with assms PDict show ?thesis by (auto simp: prune.simps)
  next
    case (Inr cutoff)
    show ?thesis
    proof (cases "prune_items cutoff rows")
      case (Inl e)
      with assms PDict \<open>days_before L (clock L (ticks w)) (max_age opts) = Inr cutoff\<close>
      show ?thesis by (auto simp: prune.simps)
    next
      case kept: (Inr kept)
      then have "kept = filter (\<lambda>(k, data). keep_item cutoff data = Inr True) rows"
        by (rule prune_items_filter)
      with assms PDict Inr kept show ?thesis by (auto simp: prune.simps)
    qed
  qed
qed (use assms in \<open>auto simp: prune.simps split: sum.splits\<close>)

lemma save_cases:
  assumes "save L opts (self, w) = ((self', w'), x)"
  shows "self' = self \<and> posts w' = posts w \<and> fetches w' = fetches w \<and>
         (dry_run opts \<or> database_file self = [] \<or> x \<noteq> None \<longrightarrow> w' = w)"
  using assms by (auto simp: save.simps split: if_splits)

text \<open>
  The flush issues no POST, leaves the files alone under dry-run, and leaves the ledger
  as it was or filtered.
\<close>

lemma flushdb_cases:
  assumes "flushdb L opts (self, w) = ((self', w'), x)"
  shows "posts w' = posts w \<and> (dry_run opts \<longrightarrow> files w' = files w) \<and>
         (database self' = database self \<or>
          (\<exists>rows keep. database self = PDict rows \<and> database self' = PDict (filter keep rows)))"
proof (cases "0 < max_age opts")
  case False
  with assms have "save L opts (self, w) = ((self', w'), x)"
    by (simp add: flushdb_def)
  from save_cases [OF this] show ?thesis by auto
next
  case True
  obtain self1 w1 y where pruned: "prune L opts (self, w) = ((self1, w1), y)"
    by (cases "prune L opts (self, w)") auto
  note p = prune_cases [OF pruned]
  show ?thesis
  proof (cases y)
    case (Some e)
    with assms True pruned have "self' = self1" "w' = w1"
      by (simp_all add: flushdb_def)
    with p show ?thesis by auto
  next
    case None
    with assms True pruned have "save L opts (self1, w1) = ((self', w'), x)"
      by (simp add: flushdb_def)
    from save_cases [OF this] p show ?thesis by auto
  qed
qed

lemma map_of_filter_distinct:
  "distinct (map fst rows) \<Longrightarrow> map_of (filter keep rows) j = Some r \<Longrightarrow> map_of rows j = Some r"
proof -
  assume d: "distinct (map fst rows)" and f: "map_of (filter keep rows) j = Some r"
  from f have "(j, r) \<in> set (filter keep rows)" by (rule map_of_SomeD)
  then have "(j, r) \<in> set rows" by simp
  with d show ?thesis by simp
qed

text \<open>A record that is in the ledger after the flush is the record that was there before.\<close>

lemma flushdb_records:
  assumes "flushdb L opts (self, w) = ((self', w'), x)"
      and "distinct_ids (database self)"
      and "record_of (database self') j = Some r"
  shows "record_of (database self) j = Some r"
proof -
  from flushdb_cases [OF assms(1)]
  have "database self' = database self \<or>
          (\<exists>rows keep. database self = PDict rows \<and> database self' = PDict (filter keep rows))"
    by simp
  then show ?thesis
  proof (elim disjE exE conjE)
    assume "database self' = database self"
    with assms(3) show ?thesis by simp
  next
    fix rows keep
    assume db: "database self = PDict rows" and db': "database self' = PDict (filter keep rows)"
    from assms(2) db have "distinct (map fst rows)" by (simp add: distinct_ids_def)
    moreover from assms(3) db' have "map_of (filter keep rows) j = Some r"
      by (simp add: record_of_def)
    ultimately have "map_of rows j = Some r" by (rule map_of_filter_distinct)
    with db show ?thesis by (simp add: record_of_def)
  qed
qed

lemma flushdb_distinct:
  assumes "flushdb L opts (self, w) = ((self', w'), x)"
      and "distinct_ids (database self)"
  shows "distinct_ids (database self')"
  using flushdb_cases [OF assms(1)] assms(2)
  by (auto simp: distinct_ids_def distinct_map_filter)

lemma flushdb_sent:
  assumes "flushdb L opts (self, w) = ((self', w'), x)"
      and "distinct_ids (database self)"
      and "record_of (database self') j \<noteq> None"
  shows "sent_of (database self') j = sent_of (database self) j"
proof -
  from assms(3) obtain r where r: "record_of (database self') j = Some r" by auto
  with assms(1,2) have "record_of (database self) j = Some r" by (rule flushdb_records)
  with r show ?thesis by (simp add: sent_of_def)
qed

section \<open>Loading the ledger\<close>

lemma convert_old_ticks: "convert_old L lines rows t = (rows', t') \<Longrightarrow> t' = t + length lines"
proof (induction lines arbitrary: rows t)
  case Nil
  then show ?case by simp
next
  case (Cons line lines)
  from Cons.prems have "convert_old L lines
      (AList.update (py_strip line) (PDict [(''last_seen'', PNum (clock L t))]) rows) (Suc t) =
      (rows', t')"
    by simp
  from Cons.IH [OF this] show ?case by simp
qed

lemma convert_old_keys:
  "convert_old L lines rows t = (rows', t') \<Longrightarrow>
   fst ` set rows' = fst ` set rows \<union> py_strip ` set lines"
proof (induction lines arbitrary: rows t)
  case Nil
  then show ?case by simp
next
  case (Cons line lines)
  from Cons.prems have "convert_old L lines
      (AList.update (py_strip line) (PDict [(''last_seen'', PNum (clock L t))]) rows) (Suc t) =
      (rows', t')"
    by simp
  from Cons.IH [OF this] show ?case
    by (auto simp: AList.dom_update)
qed

lemma convert_old_stamped:
  "convert_old L lines rows t = (rows', t') \<Longrightarrow>
   map_of rows k = Some (PDict [(''last_seen'', PNum (clock L u))]) \<Longrightarrow> t0 \<le> u \<Longrightarrow> u < t \<Longrightarrow>
   \<exists>u'. t0 \<le> u' \<and> u' < t' \<and> map_of rows' k = Some (PDict [(''last_seen'', PNum (clock L u'))])"
proof (induction lines arbitrary: rows t u)
  case Nil
  then show ?case by auto
next
  case (Cons line lines)
  let ?rows = "AList.update (py_strip line) (PDict [(''last_seen'', PNum (clock L t))]) rows"
  from Cons.prems(1) have rest: "convert_old L lines ?rows (Suc t) = (rows', t')"
    by simp
  show ?case
  proof (cases "k = py_strip line")
    case True
    then have "map_of ?rows k = Some (PDict [(''last_seen'', PNum (clock L t))])"
      by (simp add: map_of_update)
    moreover from Cons.prems(3,4) have "t0 \<le> t" by simp
    ultimately show ?thesis
      using Cons.IH [OF rest, of t] by simp
  next
    case False
    with Cons.prems(2) have "map_of ?rows k = Some (PDict [(''last_seen'', PNum (clock L u))])"
      by (simp add: map_of_update)
    with Cons.prems(3,4) show ?thesis
      using Cons.IH [OF rest, of u] by simp
  qed
qed

lemma convert_old_lines:
  "convert_old L lines rows t = (rows', t') \<Longrightarrow> line \<in> set lines \<Longrightarrow>
   \<exists>u. t \<le> u \<and> u < t' \<and>
       map_of rows' (py_strip line) = Some (PDict [(''last_seen'', PNum (clock L u))])"
proof (induction lines arbitrary: rows t)
  case Nil
  then show ?case by simp
next
  case (Cons first lines)
  let ?rows = "AList.update (py_strip first) (PDict [(''last_seen'', PNum (clock L t))]) rows"
  from Cons.prems(1) have rest: "convert_old L lines ?rows (Suc t) = (rows', t')"
    by simp
  have here: "map_of ?rows (py_strip first) = Some (PDict [(''last_seen'', PNum (clock L t))])"
    by (simp add: map_of_update)
  show ?case
  proof (cases "line = first")
    case True
    with convert_old_stamped [OF rest here, of t] show ?thesis by simp
  next
    case False
    with Cons.prems(2) have "line \<in> set lines" by simp
    from Cons.IH [OF rest this] show ?thesis
      by (auto intro: Suc_leD)
  qed
qed

text \<open>
  Claim C7, as the code has it: loading never writes a file; a missing ledger file gives
  the empty ledger and no error; text that \<open>json.loads\<close> rejects is read as one
  identifier per line, and every line yields, under its stripped identifier, a record
  holding only \<open>last_seen\<close>, set to a clock reading taken during the load. Every record
  of the loaded ledger comes from a line.
\<close>

theorem ledger_load:
  "files (snd (init L hook fs dbfile w)) = files w \<and>
   (dbfile \<noteq> [] \<and> map_of (files w) dbfile = None \<longrightarrow>
      init L hook fs dbfile w =
        (\<lparr>webhook = hook, feeds = fs, database_file = dbfile, database = PDict []\<rparr>, w)) \<and>
   (dbfile \<noteq> [] \<and> map_of (files w) dbfile = Some dbtext \<and> json_loads L dbtext = None \<longrightarrow>
      (\<exists>rows. database (fst (init L hook fs dbfile w)) = PDict rows \<and>
         fst ` set rows = py_strip ` set (py_splitlines dbtext) \<and>
         (\<forall>line \<in> set (py_splitlines dbtext).
            \<exists>u. ticks w \<le> u \<and> u < ticks w + length (py_splitlines dbtext) \<and>
                map_of rows (py_strip line) = Some (PDict [(''last_seen'', PNum (clock L u))]))))"
proof (intro conjI impI)
  show "files (snd (init L hook fs dbfile w)) = files w"
    by (simp add: init_def Let_def split: option.splits prod.splits)
next
  assume "dbfile \<noteq> [] \<and> map_of (files w) dbfile = None"
  then show "init L hook fs dbfile w =
        (\<lparr>webhook = hook, feeds = fs, database_file = dbfile, database = PDict []\<rparr>, w)"
    by (simp add: init_def)
next
  assume old: "dbfile \<noteq> [] \<and> map_of (files w) dbfile = Some dbtext \<and> json_loads L dbtext = None"
  obtain rows t where conv: "convert_old L (py_splitlines dbtext) [] (ticks w) = (rows, t)"
    by (cases "convert_old L (py_splitlines dbtext) [] (ticks w)")
  with old have db: "database (fst (init L hook fs dbfile w)) = PDict rows"
    by (simp add: init_def)
  have t: "t = ticks w + length (py_splitlines dbtext)"
    using conv by (rule convert_old_ticks)
  have keys: "fst ` set rows = py_strip ` set (py_splitlines dbtext)"
    using convert_old_keys [OF conv] by simp
  have "\<exists>u. ticks w \<le> u \<and> u < ticks w + length (py_splitlines dbtext) \<and>
                map_of rows (py_strip line) = Some (PDict [(''last_seen'', PNum (clock L u))])"
    if "line \<in> set (py_splitlines dbtext)" for line
    using convert_old_lines [OF conv that] t by simp
  with db keys
  show "\<exists>rows. database (fst (init L hook fs dbfile w)) = PDict rows \<and>
         fst ` set rows = py_strip ` set (py_splitlines dbtext) \<and>
         (\<forall>line \<in> set (py_splitlines dbtext).
            \<exists>u. ticks w \<le> u \<and> u < ticks w + length (py_splitlines dbtext) \<and>
                map_of rows (py_strip line) = Some (PDict [(''last_seen'', PNum (clock L u))]))"
    by blast
qed

text \<open>
  The specification's example: a ledger file with the lines \<open>entry-1\<close> and
  \<open>entry-2\<close> loads into two records, each holding only \<open>last_seen\<close>; without a file
  the ledger is empty.
\<close>

theorem ledger_load_witness:
  "files (snd (init demo_libs ''http://hook'' [] ''db.json'' legacy_world)) = files legacy_world \<and>
   database (fst (init demo_libs ''http://hook'' [] ''db.json'' demo_world)) = PDict [] \<and>
   (\<exists>rows u1 u2.
      database (fst (init demo_libs ''http://hook'' [] ''db.json'' legacy_world)) = PDict rows \<and>
      fst ` set rows = {''entry-1'', ''entry-2''} \<and>
      map_of rows ''entry-1'' = Some (PDict [(''last_seen'', PNum (1700000000000000 + int u1))]) \<and>
      map_of rows ''entry-2'' = Some (PDict [(''last_seen'', PNum (1700000000000000 + int u2))]))"
proof -
  have lines: "py_splitlines (''entry-1'' @ [CHR 0x0A] @ ''entry-2'') = [''entry-1'', ''entry-2'']"
    by code_simp
  have strip: "py_strip ''entry-1'' = ''entry-1''" "py_strip ''entry-2'' = ''entry-2''"
    by code_simp+
  have missing: "''db.json'' \<noteq> [] \<and> map_of (files demo_world) ''db.json'' = None"
    by (simp add: demo_world_def)
  have old: "''db.json'' \<noteq> [] \<and>
      map_of (files legacy_world) ''db.json'' = Some (''entry-1'' @ [CHR 0x0A] @ ''entry-2'') \<and>
      json_loads demo_libs (''entry-1'' @ [CHR 0x0A] @ ''entry-2'') = None"
    by (simp add: legacy_world_def demo_libs_def)
  have clk: "clock demo_libs u = 1700000000000000 + int u" for u
    by (simp add: demo_libs_def)
  note load = ledger_load [of demo_libs "''http://hook''" "[]" "''db.json''"]
  have same: "files (snd (init demo_libs ''http://hook'' [] ''db.json'' legacy_world)) = files legacy_world"
    using load [of legacy_world] by (rule conjunct1)
  have empty: "database (fst (init demo_libs ''http://hook'' [] ''db.json'' demo_world)) = PDict []"
    using load [of demo_world] missing by simp
  note third = load [of legacy_world "''entry-1'' @ [CHR 0x0A] @ ''entry-2''",
      THEN conjunct2, THEN conjunct2, THEN mp, OF old, unfolded lines]
  from third obtain rows where db: "database (fst (init demo_libs ''http://hook'' [] ''db.json'' legacy_world)) = PDict rows"
    and keys: "fst ` set rows = py_strip ` set [''entry-1'', ''entry-2'']"
    and stamped: "\<forall>line \<in> set [''entry-1'', ''entry-2''].
            \<exists>u. ticks legacy_world \<le> u \<and> u < ticks legacy_world + length [''entry-1'', ''entry-2''] \<and>
                map_of rows (py_strip line) = Some (PDict [(''last_seen'', PNum (clock demo_libs u))])"
    by (elim exE conjE) (rule that)
  from stamped obtain u1 where u1: "map_of rows ''entry-1'' = Some (PDict [(''last_seen'', PNum (1700000000000000 + int u1))])"
    by (auto simp: strip clk)
  from stamped obtain u2 where u2: "map_of rows ''entry-2'' = Some (PDict [(''last_seen'', PNum (1700000000000000 + int u2))])"
    by (auto simp: strip clk)
  from keys have keys': "fst ` set rows = {''entry-1'', ''entry-2''}"
    by (simp add: strip)
  from same empty db keys' u1 u2 show ?thesis
    by (intro conjI exI)
qed

text \<open>
  The claim's condition, content that is not the structured format, is wider than the
  code's, and there the claim fails: a file holding the one identifier \<open>12345\<close> is valid
  JSON, so it is not read as a line; the number becomes the database, and the run ends
  with the \<open>TypeError\<close> of \<open>len\<close> in the flush.
\<close>

theorem one_token_file_not_legacy:
  "database (fst (init json_libs ''http://hook'' [demo_config] ''db.json'' number_world)) =
     PNum 12345 \<and>
   snd (run json_libs ''http://hook'' [demo_config] ''db.json'' live_options number_world) =
     Some (TypeError ''len'')"
  by code_simp

section \<open>Pruning\<close>

lemma save_database: "database (fst (fst (save L opts s))) = database (fst s)"
  by (cases s) (simp add: save.simps)

lemma keep_item_timed:
  "timed_record data \<Longrightarrow>
   keep_item cutoff data = Inr (case last_seen_of data of None \<Rightarrow> False | Some t \<Rightarrow> cutoff < t)"
  by (cases data)
     (auto simp: timed_record_def last_seen_of_def keep_item_def gt_cutoff_def
           split: option.splits pyval.splits)

lemma prune_items_timed:
  "\<forall>(k, data) \<in> set rows. timed_record data \<Longrightarrow>
   prune_items cutoff rows =
     Inr (filter (\<lambda>(k, data). case last_seen_of data of None \<Rightarrow> False | Some t \<Rightarrow> cutoff < t) rows)"
proof (induction rows)
  case Nil
  then show ?case by simp
next
  case (Cons row rows)
  obtain k data where row: "row = (k, data)" by (cases row)
  with Cons.prems have "timed_record data" by simp
  then have "keep_item cutoff data =
      Inr (case last_seen_of data of None \<Rightarrow> False | Some t \<Rightarrow> cutoff < t)"
    by (rule keep_item_timed)
  moreover from Cons have "prune_items cutoff rows =
     Inr (filter (\<lambda>(k, data). case last_seen_of data of None \<Rightarrow> False | Some t \<Rightarrow> cutoff < t) rows)"
    by simp
  ultimately show ?case using row by simp
qed

text \<open>
  Claim C3: at flush time with a retention of \<open>max_age > 0\<close> days, the cutoff is what
  \<open>datetime\<close> computes for now minus that many days, and the ledger keeps exactly the
  records whose \<open>last_seen\<close> is greater than the cutoff: a record without
  \<open>last_seen\<close>, or with \<open>last_seen\<close> at or before the cutoff, is removed. With
  \<open>max_age \<le> 0\<close> no record is removed. The ledger is a dict of records as the agent
  writes them.
\<close>

theorem prune_by_last_seen:
  assumes "database self = PDict rows"
      and "\<forall>(k, data) \<in> set rows. timed_record data"
  shows "(0 < max_age opts \<and> days_before L (clock L (ticks w)) (max_age opts) = Inr cutoff \<longrightarrow>
            database (fst (fst (flushdb L opts (self, w)))) =
              PDict (filter (\<lambda>(k, data). case last_seen_of data of
                                            None \<Rightarrow> False
                                          | Some t \<Rightarrow> cutoff < t) rows)) \<and>
         (max_age opts \<le> 0 \<longrightarrow> database (fst (fst (flushdb L opts (self, w)))) = PDict rows)"
proof (intro conjI impI)
  assume "max_age opts \<le> 0"
  then show "database (fst (fst (flushdb L opts (self, w)))) = PDict rows"
    using assms(1) by (simp add: flushdb_def save_database)
next
  assume pos: "0 < max_age opts \<and> days_before L (clock L (ticks w)) (max_age opts) = Inr cutoff"
  let ?kept = "filter (\<lambda>(k, data). case last_seen_of data of None \<Rightarrow> False | Some t \<Rightarrow> cutoff < t) rows"
  have "prune_items cutoff rows = Inr ?kept"
    using assms(2) by (rule prune_items_timed)
  with pos assms(1)
  have "prune L opts (self, w) =
          ((self\<lparr>database := PDict ?kept\<rparr>, w\<lparr>ticks := Suc (Suc (ticks w))\<rparr>), None)"
    by (simp add: prune.simps)
  with pos show "database (fst (fst (flushdb L opts (self, w)))) = PDict ?kept"
    by (simp add: flushdb_def save_database)
qed

text \<open>
  The specification's example, with 30 days: the record seen 31 days ago and the record
  without \<open>last_seen\<close> go, the record seen 29 days ago stays; with 0 days all three stay.
\<close>

theorem prune_by_last_seen_witness:
  "database (fst (fst (flushdb demo_libs \<lparr>dry_run = False, populate = False, max_age = 30\<rparr>
      (demo_agent\<lparr>database := PDict aged_rows\<rparr>, demo_world)))) =
     PDict [(''fresh'', PDict [(''url'', PStr ''http://x/2''), (''last_seen'', PNum 1697494400000000)])] \<and>
   database (fst (fst (flushdb demo_libs \<lparr>dry_run = False, populate = False, max_age = 0\<rparr>
      (demo_agent\<lparr>database := PDict aged_rows\<rparr>, demo_world)))) = PDict aged_rows"
proof -
  have db: "database (demo_agent\<lparr>database := PDict aged_rows\<rparr>) = PDict aged_rows"
    by simp
  have timed: "\<forall>(k, data) \<in> set aged_rows. timed_record data"
    by (simp add: aged_rows_def timed_record_def)
  have cutoff: "days_before demo_libs (clock demo_libs (ticks demo_world)) 30 = Inr 1697408000000000"
    by (simp add: demo_libs_def demo_world_def)
  have kept: "filter (\<lambda>(k, data). case last_seen_of data of
                                     None \<Rightarrow> False
                                   | Some t \<Rightarrow> 1697408000000000 < t) aged_rows =
      [(''fresh'', PDict [(''url'', PStr ''http://x/2''), (''last_seen'', PNum 1697494400000000)])]"
    by (simp add: aged_rows_def last_seen_of_def)
  from prune_by_last_seen [OF db timed, of "\<lparr>dry_run = False, populate = False, max_age = 30\<rparr>"
         demo_libs demo_world 1697408000000000]
       prune_by_last_seen [OF db timed, of "\<lparr>dry_run = False, populate = False, max_age = 0\<rparr>"
         demo_libs demo_world 0]
       cutoff kept
  show ?thesis by simp
qed

section \<open>Content extraction\<close>

lemma resolve_all_links:
  "resolve_all L entry srcs = Inr images \<Longrightarrow>
   list_all2 (\<lambda>src image. \<exists>link. e_link entry = Some link \<and> urljoin L link src = Inr image)
     srcs images"
proof (induction srcs arbitrary: images)
  case Nil
  then show ?case by simp
next
  case (Cons src srcs)
  from Cons.prems obtain link u us
    where "e_link entry = Some link" and "urljoin L link src = Inr u"
      and "resolve_all L entry srcs = Inr us" and "images = u # us"
    by (auto simp: attr_def split: option.splits sum.splits)
  with Cons.IH show ?case by simp
qed

lemma image_html_source: "image_html entry = Inr html \<Longrightarrow> html = image_source entry"
  by (auto simp: image_html_def image_source_def content0_def split: option.splits list.splits)

lemma summary_text_source:
  "image_html entry = Inr html \<Longrightarrow> summary_text L entry = to_markdown L (text_source entry)"
  by (auto simp: image_html_def summary_text_def content_text_def text_source_def content0_def
                 to_markdown_def
           split: option.splits list.splits)

lemma to_markdown_keeps:
  assumes "to_markdown L html = Inr md_text" and "html \<noteq> []"
      and "convert_to_markdown L html = Inr md"
  shows "md_text = py_replace_tab (py_strip md)"
  using assms by (simp add: to_markdown_def)

text \<open>
  Claim C8: the images come from the rich-content HTML if present, else from the summary
  HTML, in the scanner's (document) order, each \<open>src\<close> resolved against the entry link;
  the text is the Markdown rendering of the summary HTML if present and non-empty, else of
  the rich-content HTML. The converter is asked to strip image tags: when its output has
  no raw image tag, neither has the text, and every whitespace-free word of its output
  is still in the text.
\<close>

theorem content_extraction:
  assumes "get_content L entry = Inr (md_text, images)"
  shows "(\<exists>srcs. img_srcs L (image_source entry) = Inr srcs \<and>
            list_all2 (\<lambda>src image. \<exists>link. e_link entry = Some link \<and>
                                          urljoin L link src = Inr image) srcs images) \<and>
         to_markdown L (text_source entry) = Inr md_text \<and>
         (\<forall>md. text_source entry \<noteq> [] \<and> convert_to_markdown L (text_source entry) = Inr md \<longrightarrow>
            (\<not> sublist ''<img'' md \<longrightarrow> \<not> sublist ''<img'' md_text) \<and>
            (\<forall>word. word \<noteq> [] \<and> (\<forall>c \<in> set word. \<not> py_isspace c) \<and> sublist word md \<longrightarrow>
                    sublist word md_text))"
proof -
  from assms obtain html srcs
    where html: "image_html entry = Inr html" and srcs: "img_srcs L html = Inr srcs"
      and resolve: "resolve_all L entry srcs = Inr images"
      and summary: "summary_text L entry = Inr md_text"
    by (auto simp: get_content_def andthen_eq_Inr)
  have source: "html = image_source entry"
    using html by (rule image_html_source)
  have images: "\<exists>srcs. img_srcs L (image_source entry) = Inr srcs \<and>
            list_all2 (\<lambda>src image. \<exists>link. e_link entry = Some link \<and>
                                          urljoin L link src = Inr image) srcs images"
    using srcs source resolve_all_links [OF resolve] by auto
  have markdown: "to_markdown L (text_source entry) = Inr md_text"
    using summary_text_source [OF html] summary by simp
  have rendered: "(\<not> sublist ''<img'' md \<longrightarrow> \<not> sublist ''<img'' md_text) \<and>
            (\<forall>word. word \<noteq> [] \<and> (\<forall>c \<in> set word. \<not> py_isspace c) \<and> sublist word md \<longrightarrow>
                    sublist word md_text)"
    if src: "text_source entry \<noteq> []" and md: "convert_to_markdown L (text_source entry) = Inr md"
    for md
  proof -
    have out: "md_text = py_replace_tab (py_strip md)"
      using markdown src md by (rule to_markdown_keeps)
    have tag: "sublist ''<img'' md" if "sublist ''<img'' md_text"
    proof -
      from that have "sublist ''<img'' (py_strip md)"
        unfolding out by (rule sublist_py_replace_tab) simp
      then show ?thesis
        using py_strip_sublist by (rule sublist_order.order_trans)
    qed
    have word: "sublist word md_text"
      if "word \<noteq> []" and solid: "\<forall>c \<in> set word. \<not> py_isspace c" and "sublist word md"
      for word
    proof -
      have tab: "py_isspace (CHR 0x09)"
        by (simp add: py_isspace_def)
      from that have "sublist word (py_strip md)"
        by (intro py_strip_keeps)
      moreover from solid tab have "\<forall>c \<in> set word. c \<noteq> CHR 0x09"
        by auto
      ultimately show ?thesis
        unfolding out by (rule py_replace_tab_keeps)
    qed
    from tag word show ?thesis by blast
  qed
  from images markdown rendered show ?thesis by blast
qed

text \<open>
  The specification's example: summary \<open><p>Hello <img src='a.png'>world</p>\<close> and entry
  link \<open>http://x/\<close>, with a scanner that finds \<open>a.png\<close> and a converter that renders
  \<open>Hello world\<close> and a line feed.
\<close>

theorem content_extraction_witness:
  "get_content demo_libs demo_entry = Inr (''Hello world'', [''http://x/a.png'']) \<and>
   image_source demo_entry = ''<p>Hello <img src='a.png'>world</p>'' \<and>
   img_srcs demo_libs (image_source demo_entry) = Inr [''a.png''] \<and>
   e_link demo_entry = Some ''http://x/'' \<and>
   sublist ''Hello'' ''Hello world'' \<and> sublist ''world'' ''Hello world'' \<and>
   \<not> sublist ''<img'' ''Hello world''"
proof -
  have content: "get_content demo_libs demo_entry = Inr (''Hello world'', [''http://x/a.png''])"
    by code_simp
  have src: "text_source demo_entry = ''<p>Hello <img src='a.png'>world</p>''"
    and img: "image_source demo_entry = ''<p>Hello <img src='a.png'>world</p>''"
    and link: "e_link demo_entry = Some ''http://x/''"
    by (simp_all add: text_source_def image_source_def demo_entry_def)
  have md: "convert_to_markdown demo_libs (text_source demo_entry) = Inr (''Hello world'' @ [CHR 0x0A])"
    and scan: "img_srcs demo_libs (image_source demo_entry) = Inr [''a.png'']"
    by (simp_all add: src img demo_libs_def)
  have raw: "\<not> sublist ''<img'' (''Hello world'' @ [CHR 0x0A])"
    by code_simp
  have hello: "sublist ''Hello'' (''Hello world'' @ [CHR 0x0A])"
    and world: "sublist ''world'' (''Hello world'' @ [CHR 0x0A])"
    by code_simp+
  have solid: "\<forall>c \<in> set ''Hello''. \<not> py_isspace c" "\<forall>c \<in> set ''world''. \<not> py_isspace c"
    by (simp_all add: py_isspace_def)
  from content_extraction [OF content] src md
  have "(\<not> sublist ''<img'' (''Hello world'' @ [CHR 0x0A]) \<longrightarrow> \<not> sublist ''<img'' ''Hello world'') \<and>
        (\<forall>word. word \<noteq> [] \<and> (\<forall>c \<in> set word. \<not> py_isspace c) \<and>
                sublist word (''Hello world'' @ [CHR 0x0A]) \<longrightarrow> sublist word ''Hello world'')"
    by simp
  with raw hello world solid
  have "\<not> sublist ''<img'' ''Hello world''"
    and "sublist ''Hello'' ''Hello world''" and "sublist ''world'' ''Hello world''"
    by blast+
  with content img scan link show ?thesis by simp
qed


section \<open>Delivery outcomes and failures\<close>

text \<open>A status outside 2xx: the POST is made, \<open>errors\<close> is created empty, and the call raises.\<close>

lemma process_entry_not_2xx:
  assumes "build_payload L feed meta entry = Inr payload" and "\<not> dry_run opts"
      and "requests_post L (length (posts w)) (webhook self) payload = Inr (status, body)"
      and "status div 100 \<noteq> 2"
  shows "process_entry L self opts feed meta entry row w =
           (Inl (AttributeError ''push''),
            (if map_of row ''errors'' = None then AList.update ''errors'' (PList []) row else row),
            w\<lparr>posts := posts w @
                [\<lparr>p_entry = e_id entry, p_url = webhook self, p_body = payload,
                  p_answer = Inr (status, body)\<rparr>]\<rparr>)"
  using assms by (simp add: process_entry_def Let_def)

text \<open>
  Claim C2 asks that a status outside 2xx appends \<open>{code, text, when}\<close> to the record's
  \<open>errors\<close>. The code does not: for a new entry and a webhook that answers 429 with
  body \<open>rate limited\<close>, the record ends with an empty \<open>errors\<close> list, no \<open>sent\<close>, and
  the \<open>AttributeError\<close> of the failed \<open>push\<close> under \<open>last_exception\<close>.
\<close>

theorem rate_limited_answer_not_recorded:
  "database (fst (fst (process_feed rate_limited_libs live_options demo_config (demo_agent, demo_world)))) =
     PDict [(''entry-1'',
             PDict [(''url'', PStr ''http://x/''),
                    (''last_seen'', PNum 1700000000000000),
                    (''errors'', PList []),
                    (''last_exception'',
                     PDict [(''error'', PExn (AttributeError ''push'')),
                            (''time'', PNum 1700000000000000)])])]"
  by code_simp


text \<open>
  The exception object stored in the record is then not serialisable: the flush of the
  same run raises and leaves the ledger file as it was.
\<close>

lemma rate_limited_run_not_saved:
  "snd (process rate_limited_libs live_options (demo_agent, demo_world)) =
     Some (TypeError ''not JSON serializable'') \<and>
   files (snd (fst (process rate_limited_libs live_options (demo_agent, demo_world)))) = []"
  by code_simp

text \<open>Where a failure can come from: extraction, payload construction, delivery.\<close>

lemma extraction_failure_raises:
  "get_content L entry = Inl err \<Longrightarrow>
   process_entry L self opts feed meta entry row w = (Inl err, row, w)"
  by (simp add: process_entry_def build_payload_def build_embed_def)

lemma payload_failure_raises:
  "build_payload L feed meta entry = Inl err \<Longrightarrow>
   process_entry L self opts feed meta entry row w = (Inl err, row, w)"
  by (simp add: process_entry_def)

lemma delivery_failure_raises:
  "build_payload L feed meta entry = Inr payload \<Longrightarrow> \<not> dry_run opts \<Longrightarrow>
   requests_post L (length (posts w)) (webhook self) payload = Inl err \<Longrightarrow>
   process_entry L self opts feed meta entry row w =
     (Inl err, row,
      w\<lparr>posts := posts w @
          [\<lparr>p_entry = e_id entry, p_url = webhook self, p_body = payload, p_answer = Inl err\<rparr>]\<rparr>)"
  by (simp add: process_entry_def Let_def)

text \<open>
  What the loop body does in memory when \<open>process_entry\<close> raises for an unsent entry
  (outside populate): nothing escapes, the record gets \<open>last_exception\<close> with the
  exception object and the clock reading of this pass, its \<open>sent\<close> is as before and not
  truthy, and the loop goes on with the next entry.
\<close>

lemma entry_failure_isolated:
  assumes ident: "e_id entry = Some i" and link: "e_link entry = Some link"
      and db: "database self = PDict rows"
      and row0: "case map_of rows i of None \<Rightarrow> row0 = [] | Some r \<Rightarrow> r = PDict row0"
      and unsent: "\<not> get_truthy row0 ''sent''" and live: "\<not> populate opts"
      and raised: "process_entry L self opts feed meta entry
                     (AList.update ''last_seen'' (PNum (clock L (ticks w)))
                        (AList.update ''url'' (PStr link) row0))
                     (w\<lparr>ticks := Suc (ticks w)\<rparr>) = (Inl err, row1, w')"
  shows "\<exists>self'. entry_step L opts feed meta entry (self, w) = ((self', w'), None) \<and>
           record_of (database self') i =
             Some (PDict (AList.update ''last_exception''
                            (PDict [(''error'', PExn err), (''time'', PNum (clock L (ticks w)))])
                            row1)) \<and>
           sent_of (database self') i = map_of row0 ''sent'' \<and>
           \<not> is_sent (database self') i \<and>
           entries_loop L opts feed meta (entry # rest) (self, w) =
             entries_loop L opts feed meta rest (self', w')"
proof -
  let ?row = "AList.update ''last_seen'' (PNum (clock L (ticks w)))
                (AList.update ''url'' (PStr link) row0)"
  let ?row' = "AList.update ''last_exception''
                 (PDict [(''error'', PExn err), (''time'', PNum (clock L (ticks w)))]) row1"
  let ?self' = "self\<lparr>database := PDict (AList.update i (PDict ?row') rows)\<rparr>"
  have step: "row_step L self opts feed meta entry link row0 w = (?row', w')"
    using unsent live raised by (simp add: row_step_def Let_def refreshed_truthy)
  have found: "map_of (if map_of rows i = None then AList.update i (PDict []) rows else rows) i =
                 Some (PDict row0)"
    using row0 by (auto simp: map_of_update split: option.splits)
  have body: "entry_step L opts feed meta entry (self, w) = ((?self', w'), None)"
    using ident link db found step
    by (simp add: entry_step.simps Let_def row_step_self)
  have stored: "record_of (database ?self') i = Some (PDict ?row')"
    by (simp add: record_of_update)
  have "map_of row1 ''sent'' = map_of ?row ''sent''"
    using process_entry_cases [OF raised] by auto
  then have kept: "map_of ?row' ''sent'' = map_of row0 ''sent''"
    by (simp add: map_of_update refreshed_sent)
  then have sent: "sent_of (database ?self') i = map_of row0 ''sent''"
    by (simp add: sent_of_update)
  with unsent have falsy: "\<not> is_sent (database ?self') i"
    by (simp add: is_sent_def get_truthy_def)
  have continues: "entries_loop L opts feed meta (entry # rest) (self, w) =
             entries_loop L opts feed meta rest (?self', w')"
    using body by simp
  from body stored sent falsy continues show ?thesis by blast
qed

text \<open>An entry without a title, followed by a good entry.\<close>

lemma untitled_fails:
  "process_entry demo_libs demo_agent live_options demo_config demo_meta untitled_entry row w =
     (Inl (AttributeError ''title''), row, w)"
proof -
  have "build_payload demo_libs demo_config demo_meta untitled_entry = Inl (AttributeError ''title'')"
    by code_simp
  then show ?thesis by (rule payload_failure_raises)
qed

lemma entry_failure_isolated_example:
  "\<exists>self'.
     entry_step demo_libs live_options demo_config demo_meta untitled_entry (demo_agent, demo_world) =
       ((self', demo_world\<lparr>ticks := Suc (ticks demo_world)\<rparr>), None) \<and>
     record_of (database self') ''entry-0'' =
       Some (PDict [(''url'', PStr ''http://x/0''), (''last_seen'', PNum 1700000000000000),
                    (''last_exception'',
                     PDict [(''error'', PExn (AttributeError ''title'')),
                            (''time'', PNum 1700000000000000)])]) \<and>
     sent_of (database self') ''entry-0'' = None \<and>
     \<not> is_sent (database self') ''entry-0'' \<and>
     entries_loop demo_libs live_options demo_config demo_meta [untitled_entry, demo_entry]
         (demo_agent, demo_world) =
       entries_loop demo_libs live_options demo_config demo_meta [demo_entry]
         (self', demo_world\<lparr>ticks := Suc (ticks demo_world)\<rparr>)"
proof -
  have ident: "e_id untitled_entry = Some ''entry-0''"
    and link: "e_link untitled_entry = Some ''http://x/0''"
    by (simp_all add: untitled_entry_def)
  have db: "database demo_agent = PDict []"
    by (simp add: demo_agent_def)
  have row0: "case map_of [] ''entry-0'' of None \<Rightarrow> [] = [] | Some r \<Rightarrow> r = PDict []"
    by simp
  have unsent: "\<not> get_truthy [] ''sent''"
    by (simp add: get_truthy_def)
  have live: "\<not> populate live_options"
    by (simp add: live_options_def)
  have now: "clock demo_libs (ticks demo_world) = 1700000000000000"
    by (simp add: demo_libs_def demo_world_def)
  from entry_failure_isolated [OF ident link db row0 unsent live untitled_fails,
      where rest = "[demo_entry]" and w = demo_world]
  show ?thesis
    by (simp add: now del: entries_loop.simps)
qed

text \<open>
  Claim C6 asks that the failure is recorded in the entry's record as an error
  description and a timestamp. The code stores the exception object itself, which
  \<open>json.dump\<close> cannot write: for a feed with an entry without a title and a good entry,
  the record of the first holds the \<open>AttributeError\<close> object, the flush of the run
  raises \<open>TypeError\<close>, and no ledger file is written, so the record never reaches the
  ledger on disk.
\<close>

theorem failed_entry_blocks_save:
  "record_of (database (fst (fst (run mixed_libs ''http://hook'' [demo_config] ''db.json''
                                     live_options demo_world)))) ''entry-0'' =
     Some (PDict [(''url'', PStr ''http://x/0''), (''last_seen'', PNum 1700000000000000),
                  (''last_exception'',
                   PDict [(''error'', PExn (AttributeError ''title'')),
                          (''time'', PNum 1700000000000000)])]) \<and>
   snd (run mixed_libs ''http://hook'' [demo_config] ''db.json'' live_options demo_world) =
     Some (TypeError ''not JSON serializable'') \<and>
   files (snd (fst (run mixed_libs ''http://hook'' [demo_config] ''db.json''
                      live_options demo_world))) = []"
  by code_simp

section \<open>Dry-run\<close>

lemma init_world:
  "files (snd (init L hook fs dbfile w)) = files w \<and> posts (snd (init L hook fs dbfile w)) = posts w"
  by (simp add: init_def Let_def split: option.splits prod.splits)

text \<open>Under dry-run the feeds are processed without a POST and without touching a file.\<close>

lemma feeds_loop_dry:
  assumes "dry_run opts"
  shows "posts (snd (feeds_loop L opts fs (self, w))) = posts w \<and>
         files (snd (feeds_loop L opts fs (self, w))) = files w"
proof (rule feeds_loop_invariant
    [where P = "\<lambda>t. posts (snd t) = posts w \<and> files (snd t) = files w"])
  show "posts (snd (self, w)) = posts w \<and> files (snd (self, w)) = files w" by simp
next
  fix self' :: agent and w' :: world
  assume "posts (snd (self', w')) = posts w \<and> files (snd (self', w')) = files w"
  then show "posts (snd (self', w'\<lparr>fetches := Suc (fetches w')\<rparr>)) = posts w \<and>
             files (snd (self', w'\<lparr>fetches := Suc (fetches w')\<rparr>)) = files w"
    by simp
next
  fix feed meta entry and t t' :: "agent \<times> world" and y
  assume t: "posts (snd t) = posts w \<and> files (snd t) = files w"
    and step: "entry_step L opts feed meta entry t = (t', y)"
  obtain a u where at: "t = (a, u)" by (cases t)
  obtain a' u' where at': "t' = (a', u')" by (cases t')
  from step at at' have s: "entry_step L opts feed meta entry (a, u) = ((a', u'), y)" by simp
  from entry_step_posts [OF s] assms have "posts u' = posts u" by auto
  moreover from entry_step_world [OF s] have "files u' = files u" by simp
  ultimately show "posts (snd t') = posts w \<and> files (snd t') = files w"
    using t at at' by simp
qed

text \<open>Under dry-run without populate no \<open>sent\<close> changes while the feeds are processed.\<close>

lemma feeds_loop_dry_sent:
  assumes "dry_run opts" and "\<not> populate opts" and "distinct_ids (database self)"
  shows "distinct_ids (database (fst (feeds_loop L opts fs (self, w)))) \<and>
         (\<forall>j. sent_of (database (fst (feeds_loop L opts fs (self, w)))) j =
              sent_of (database self) j)"
proof (rule feeds_loop_invariant
    [where P = "\<lambda>t. distinct_ids (database (fst t)) \<and>
                     (\<forall>j. sent_of (database (fst t)) j = sent_of (database self) j)"])
  show "distinct_ids (database (fst (self, w))) \<and>
        (\<forall>j. sent_of (database (fst (self, w))) j = sent_of (database self) j)"
    using assms(3) by simp
next
  fix self' :: agent and w' :: world
  assume "distinct_ids (database (fst (self', w'))) \<and>
        (\<forall>j. sent_of (database (fst (self', w'))) j = sent_of (database self) j)"
  then show "distinct_ids (database (fst (self', w'\<lparr>fetches := Suc (fetches w')\<rparr>))) \<and>
        (\<forall>j. sent_of (database (fst (self', w'\<lparr>fetches := Suc (fetches w')\<rparr>))) j =
             sent_of (database self) j)"
    by simp
next
  fix feed meta entry and t t' :: "agent \<times> world" and y
  assume t: "distinct_ids (database (fst t)) \<and>
        (\<forall>j. sent_of (database (fst t)) j = sent_of (database self) j)"
    and step: "entry_step L opts feed meta entry t = (t', y)"
  obtain a u where at: "t = (a, u)" by (cases t)
  obtain a' u' where at': "t' = (a', u')" by (cases t')
  from step at at' have s: "entry_step L opts feed meta entry (a, u) = ((a', u'), y)" by simp
  have "sent_of (database a') j = sent_of (database a) j" for j
    using entry_step_sent [OF s, of j] assms(1,2) by auto
  moreover from t at have "distinct_ids (database a')"
    using entry_step_distinct [OF s] by simp
  ultimately show "distinct_ids (database (fst t')) \<and>
        (\<forall>j. sent_of (database (fst t')) j = sent_of (database self) j)"
    using t at at' by simp
qed

text \<open>
  Claim C5, as the code has it. Under dry-run a full run (load, every feed, flush) issues
  no POST and leaves every file as it was; and when populate is not also on, every record
  in the ledger at the end of the run has the \<open>sent\<close> value it was loaded with (none,
  for a record created in the run).
\<close>

theorem dry_run_purity:
  assumes "dry_run opts"
  shows "posts (snd (fst (run L hook fs dbfile opts w))) = posts w \<and>
         files (snd (fst (run L hook fs dbfile opts w))) = files w \<and>
         (\<not> populate opts \<and> distinct_ids (database (fst (init L hook fs dbfile w))) \<longrightarrow>
            (\<forall>j. record_of (database (fst (fst (run L hook fs dbfile opts w)))) j \<noteq> None \<longrightarrow>
                 sent_of (database (fst (fst (run L hook fs dbfile opts w)))) j =
                 sent_of (database (fst (init L hook fs dbfile w))) j))"
proof -
  obtain self0 w0 where loaded: "init L hook fs dbfile w = (self0, w0)"
    by (cases "init L hook fs dbfile w")
  obtain self1 w1 where fed: "feeds_loop L opts (feeds self0) (self0, w0) = (self1, w1)"
    by (cases "feeds_loop L opts (feeds self0) (self0, w0)")
  obtain self2 w2 x where flushed: "flushdb L opts (self1, w1) = ((self2, w2), x)"
    by (cases "flushdb L opts (self1, w1)") auto
  have result: "run L hook fs dbfile opts w = ((self2, w2), x)"
    using loaded fed flushed by (simp add: run_def process_def)
  from init_world [of L hook fs dbfile w] loaded
  have w0: "files w0 = files w" "posts w0 = posts w" by simp_all
  from feeds_loop_dry [OF assms, of L "feeds self0" self0 w0] fed
  have w1: "posts w1 = posts w0" "files w1 = files w0" by simp_all
  from flushdb_cases [OF flushed] assms
  have w2: "posts w2 = posts w1" "files w2 = files w1" by simp_all
  have sent: "sent_of (database self2) j = sent_of (database self0) j"
    if quiet: "\<not> populate opts" and ids: "distinct_ids (database self0)"
      and there: "record_of (database self2) j \<noteq> None" for j
  proof -
    from feeds_loop_dry_sent [OF assms quiet ids, of L "feeds self0" w0] fed
    have ids1: "distinct_ids (database self1)"
      and same: "sent_of (database self1) j = sent_of (database self0) j"
      by simp_all
    from flushed ids1 there have "sent_of (database self2) j = sent_of (database self1) j"
      by (rule flushdb_sent)
    with same show ?thesis by simp
  qed
  from w0 w1 w2 sent show ?thesis
    unfolding result loaded by simp
qed

text \<open>
  With dry-run and populate together the claim's first part fails: the populate branch
  comes before the dry-run check, and the new entry's record is marked \<open>sent = True\<close>
  in the ledger in memory.
\<close>

theorem dry_run_populate_marks_sent:
  "database (fst (fst (run demo_libs ''http://hook'' [demo_config] ''db.json''
                        dry_populate_options demo_world))) =
     PDict [(''entry-1'',
             PDict [(''url'', PStr ''http://x/''), (''last_seen'', PNum 1700000000000000),
                    (''sent'', PBool True)])]"
  by code_simp

text \<open>
  A dry run over a feed with one new entry, on an old-format ledger file: no POST, the
  file as it was, the entry's record without \<open>sent\<close>.
\<close>

theorem dry_run_purity_witness:
  "posts (snd (fst (run demo_libs ''http://hook'' [demo_config] ''db.json'' dry_options legacy_world))) = [] \<and>
   files (snd (fst (run demo_libs ''http://hook'' [demo_config] ''db.json'' dry_options legacy_world))) =
     [(''db.json'', ''entry-1'' @ [CHR 0x0A] @ ''entry-2'')] \<and>
   record_of (database (fst (fst (run demo_libs ''http://hook'' [demo_config] ''db.json''
                                     dry_options legacy_world)))) ''entry-1'' \<noteq> None \<and>
   sent_of (database (fst (fst (run demo_libs ''http://hook'' [demo_config] ''db.json''
                                     dry_options legacy_world)))) ''entry-1'' = None"
proof -
  have dry: "dry_run dry_options" and quiet: "\<not> populate dry_options"
    by (simp_all add: dry_options_def)
  have loaded: "database (fst (init demo_libs ''http://hook'' [demo_config] ''db.json'' legacy_world)) =
      PDict [(''entry-1'', PDict [(''last_seen'', PNum 1700000000000000)]),
             (''entry-2'', PDict [(''last_seen'', PNum 1700000000000001)])]"
    by code_simp
  have ids: "distinct_ids (database (fst (init demo_libs ''http://hook'' [demo_config] ''db.json'' legacy_world)))"
    unfolding loaded by (simp add: distinct_ids_def)
  have before: "sent_of (database (fst (init demo_libs ''http://hook'' [demo_config] ''db.json'' legacy_world))) ''entry-1'' = None"
    unfolding loaded by (simp add: sent_of_PDict)
  have there: "record_of (database (fst (fst (run demo_libs ''http://hook'' [demo_config] ''db.json''
                                     dry_options legacy_world)))) ''entry-1'' \<noteq> None"
    by code_simp
  have world: "posts legacy_world = []"
      "files legacy_world = [(''db.json'', ''entry-1'' @ [CHR 0x0A] @ ''entry-2'')]"
    by (simp_all add: legacy_world_def)
  from dry_run_purity [OF dry, of demo_libs "''http://hook''" "[demo_config]" "''db.json''" legacy_world]
    quiet ids before there world
  show ?thesis by simp
qed

section \<open>Delivery at most once\<close>

lemma is_sent_PNum: "sent_of db i = Some (PNum n) \<Longrightarrow> n \<noteq> 0 \<Longrightarrow> is_sent db i"
  by (simp add: is_sent_def)

lemma is_sent_cong:
  assumes "sent_of db' i = sent_of db i"
  shows "is_sent db' i = is_sent db i"
  unfolding is_sent_def assms by (rule refl)

text \<open>A record that is sent stays sent, with the same value, through the loop body.\<close>

lemma entry_step_keeps_sent:
  assumes "entry_step L opts feed meta entry (self, w) = ((self', w'), x)"
      and "is_sent (database self) i"
  shows "sent_of (database self') i = sent_of (database self) i \<and> is_sent (database self') i"
proof -
  have "sent_of (database self') i = sent_of (database self) i"
    using entry_step_sent [OF assms(1), of i]
  proof (elim disjE conjE)
    assume "sent_of (database self') i = sent_of (database self) i"
    then show ?thesis .
  next
    assume unsent: "\<not> is_sent (database self) i"
    from unsent assms(2) show ?thesis by (rule notE)
  next
    assume unsent: "\<not> is_sent (database self) i"
    from unsent assms(2) show ?thesis by (rule notE)
  qed
  moreover from this have "is_sent (database self') i = is_sent (database self) i"
    by (rule is_sent_cong)
  ultimately show ?thesis using assms(2) by blast
qed

text \<open>The loop body makes no delivery attempt for an identifier whose record is sent.\<close>

lemma entry_step_attempts:
  assumes "entry_step L opts feed meta entry (self, w) = ((self', w'), x)"
      and "is_sent (database self) i"
  shows "attempts i w' = attempts i w"
  using entry_step_posts [OF assms(1)]
proof (elim disjE exE conjE)
  assume "posts w' = posts w"
  then show ?thesis by (simp add: attempts_def)
next
  fix p j
  assume added: "posts w' = posts w @ [p]" and p: "p_entry p = Some j"
    and unsent: "\<not> is_sent (database self) j"
  have "j \<noteq> i"
  proof
    assume "j = i"
    with unsent assms(2) show False by simp
  qed
  with added p show ?thesis by (simp add: attempts_def)
qed

text \<open>
  The first half of claim C1: the loop body, on an entry whose record has a truthy
  \<open>sent\<close>, issues no POST and leaves \<open>sent\<close> as it is.
\<close>

lemma sent_entry_skipped:
  assumes "e_id entry = Some i" and "is_sent (database self) i"
      and "entry_step L opts feed meta entry (self, w) = ((self', w'), x)"
  shows "posts w' = posts w \<and> sent_of (database self') i = sent_of (database self) i"
proof -
  have "posts w' = posts w"
    using entry_step_posts [OF assms(3)]
  proof (elim disjE exE conjE)
    fix p j
    assume "e_id entry = Some j" and unsent: "\<not> is_sent (database self) j"
    with assms(1) have "j = i" by simp
    with unsent assms(2) show ?thesis by simp
  qed
  with entry_step_keeps_sent [OF assms(3,2)] show ?thesis by simp
qed

text \<open>
  Claim C1 concludes that two runs over an unchanged feed, the first of which delivered
  an entry, make one delivery attempt for it. The code does not keep that: the second
  entry of the feed is answered 429, the exception object stored in its record makes the
  flush of the first run raise, no ledger is saved, and the second run, which loads the
  ledger from disk, posts the first entry again.
\<close>

theorem redelivered_after_failed_save:
  "map p_answer
     (attempts ''entry-1''
        (snd (fst (run flaky_libs ''http://hook'' [demo_config] ''db.json'' live_options
                     (snd (fst (run flaky_libs ''http://hook'' [demo_config] ''db.json''
                                  live_options demo_world))))))) =
     [Inr (204, []), Inr (429, ''rate limited'')] \<and>
   map p_answer
     (attempts ''entry-1''
        (snd (fst (run flaky_libs ''http://hook'' [demo_config] ''db.json''
                     live_options demo_world)))) = [Inr (204, [])] \<and>
   snd (run flaky_libs ''http://hook'' [demo_config] ''db.json'' live_options demo_world) =
     Some (TypeError ''not JSON serializable'') \<and>
   files (snd (fst (run flaky_libs ''http://hook'' [demo_config] ''db.json''
                      live_options demo_world))) = []"
  by code_simp

section \<open>The \<open>sent\<close> field moves forward only\<close>

lemma moved_forward_refl: "moved_forward L j db db"
  by (simp add: moved_forward_def)

lemma moved_forward_trans:
  assumes ab: "moved_forward L j a b" and bc: "moved_forward L j b c"
  shows "moved_forward L j a c"
proof (cases "sent_of b j = sent_of a j")
  case True
  then have "is_sent b j = is_sent a j" by (rule is_sent_cong)
  with bc True show ?thesis
    unfolding moved_forward_def by metis
next
  case False
  with ab have unsent: "\<not> is_sent a j"
    and new: "sent_of b j = Some (PBool True) \<or> (\<exists>n. sent_of b j = Some (PNum (clock L n)))"
    unfolding moved_forward_def by blast+
  show ?thesis
  proof (cases "sent_of c j = sent_of b j")
    case True
    with unsent new show ?thesis
      unfolding moved_forward_def by metis
  next
    case False
    with bc unsent show ?thesis
      unfolding moved_forward_def by blast
  qed
qed

lemma entry_step_forward:
  assumes "entry_step L opts feed meta entry (self, w) = ((self', w'), x)"
  shows "moved_forward L j (database self) (database self')"
  using entry_step_sent [OF assms, of j]
  unfolding moved_forward_def by blast

lemma process_feed_forward:
  assumes "process_feed L opts feed (self, w) = ((self', w'), x)"
      and "distinct_ids (database self)"
  shows "moved_forward L j (database self) (database self') \<and> distinct_ids (database self')"
proof -
  let ?P = "\<lambda>t. moved_forward L j (database self) (database (fst t)) \<and>
                 distinct_ids (database (fst t))"
  have "?P (self', w')"
    using assms(1)
  proof (rule process_feed_invariant [where P = ?P])
    from assms(2) show "?P (self, w\<lparr>fetches := Suc (fetches w)\<rparr>)"
      by (simp add: moved_forward_refl)
  next
    fix meta entry and t t' :: "agent \<times> world" and y
    assume t: "?P t" and step: "entry_step L opts feed meta entry t = (t', y)"
    obtain a u where at: "t = (a, u)" by (cases t)
    obtain a' u' where at': "t' = (a', u')" by (cases t')
    from step at at' have s: "entry_step L opts feed meta entry (a, u) = ((a', u'), y)" by simp
    from t at have "moved_forward L j (database self) (database a)" by simp
    then have "moved_forward L j (database self) (database a')"
      using entry_step_forward [OF s] by (rule moved_forward_trans)
    moreover from t at have "distinct_ids (database a')"
      using entry_step_distinct [OF s] by simp
    ultimately show "?P t'" using at' by simp
  qed
  then show ?thesis by simp
qed

text \<open>A ledger left as it was or filtered: a record still there is the record that was there.\<close>

lemma filtered_ledger:
  assumes "db' = db \<or> (\<exists>rows keep. db = PDict rows \<and> db' = PDict (filter keep rows))"
      and "distinct_ids db"
  shows "distinct_ids db'"
    and "record_of db' j \<noteq> None \<Longrightarrow> sent_of db' j = sent_of db j"
proof -
  from assms show "distinct_ids db'"
    by (auto simp: distinct_ids_def distinct_map_filter)
  assume there: "record_of db' j \<noteq> None"
  then obtain r where r: "record_of db' j = Some r" by auto
  have "record_of db j = Some r"
    using assms(1)
  proof (elim disjE exE conjE)
    assume "db' = db"
    with r show ?thesis by simp
  next
    fix rows keep
    assume db: "db = PDict rows" and db': "db' = PDict (filter keep rows)"
    from assms(2) db have "distinct (map fst rows)" by (simp add: distinct_ids_def)
    moreover from r db' have "map_of (filter keep rows) j = Some r"
      by (simp add: record_of_def)
    ultimately have "map_of rows j = Some r" by (rule map_of_filter_distinct)
    with db show ?thesis by (simp add: record_of_def)
  qed
  with r show "sent_of db' j = sent_of db j" by (simp add: sent_of_def)
qed

lemma pipeline_step_forward:
  assumes "pipeline_step L t u" and "distinct_ids (database (fst t))"
      and "record_of (database (fst u)) j \<noteq> None"
  shows "moved_forward L j (database (fst t)) (database (fst u)) \<and>
         distinct_ids (database (fst u))"
  using assms
proof (cases rule: pipeline_step.cases)
  case (entry opts feed meta entry x)
  obtain a w where t: "t = (a, w)" by (cases t)
  obtain a' w' where u: "u = (a', w')" by (cases u)
  from entry t u have s: "entry_step L opts feed meta entry (a, w) = ((a', w'), x)" by simp
  from entry_step_forward [OF s] entry_step_distinct [OF s] assms(2) t u
  show ?thesis by simp
next
  case (feed opts feed x)
  obtain a w where t: "t = (a, w)" by (cases t)
  obtain a' w' where u: "u = (a', w')" by (cases u)
  from feed t u have s: "process_feed L opts feed (a, w) = ((a', w'), x)" by simp
  from process_feed_forward [OF s] assms(2) t u show ?thesis by simp
next
  case (pruning opts x)
  obtain a w where t: "t = (a, w)" by (cases t)
  obtain a' w' where u: "u = (a', w')" by (cases u)
  from pruning t u have s: "prune L opts (a, w) = ((a', w'), x)" by simp
  from prune_cases [OF s]
  have shape: "database a' = database a \<or>
      (\<exists>rows keep. database a = PDict rows \<and> database a' = PDict (filter keep rows))"
    by simp
  from assms(2) t have ids: "distinct_ids (database a)" by simp
  from assms(3) u have there: "record_of (database a') j \<noteq> None" by simp
  from filtered_ledger [OF shape ids] there t u show ?thesis
    by (simp add: moved_forward_def)
next
  case (flush opts x)
  obtain a w where t: "t = (a, w)" by (cases t)
  obtain a' w' where u: "u = (a', w')" by (cases u)
  from flush t u have s: "flushdb L opts (a, w) = ((a', w'), x)" by simp
  from flushdb_cases [OF s]
  have shape: "database a' = database a \<or>
      (\<exists>rows keep. database a = PDict rows \<and> database a' = PDict (filter keep rows))"
    by simp
  from assms(2) t have ids: "distinct_ids (database a)" by simp
  from assms(3) u have there: "record_of (database a') j \<noteq> None" by simp
  from filtered_ledger [OF shape ids] there t u show ?thesis
    by (simp add: moved_forward_def)
qed

lemma survives_forward:
  assumes "survives L j s t" and "distinct_ids (database (fst s))"
  shows "moved_forward L j (database (fst s)) (database (fst t)) \<and>
         distinct_ids (database (fst t))"
  using assms
proof (induction rule: survives.induct)
  case (start s)
  then show ?case by (simp add: moved_forward_refl)
next
  case (step s t u)
  from step.IH step.prems have mid: "moved_forward L j (database (fst s)) (database (fst t))"
    and ids: "distinct_ids (database (fst t))" by simp_all
  from pipeline_step_forward [OF step.hyps(2) ids step.hyps(3)]
  have last: "moved_forward L j (database (fst t)) (database (fst u))"
    and ids': "distinct_ids (database (fst u))" by simp_all
  from mid last have "moved_forward L j (database (fst s)) (database (fst u))"
    by (rule moved_forward_trans)
  with ids' show ?case by simp
qed

text \<open>
  Claim C4: over every sequence of pipeline operations (the loop body on an entry, a whole
  feed, pruning, flush) after each of which the record is still in the ledger, a truthy
  \<open>sent\<close> is never changed; \<open>sent\<close> changes only from a value that is not truthy, and
  only to \<open>True\<close> or to a clock reading; with a clock that never reads zero, the new
  value is truthy. The ledger lists no identifier twice.
\<close>

theorem sent_only_forward:
  assumes "survives L j s t" and "distinct_ids (database (fst s))"
  shows "(is_sent (database (fst s)) j \<longrightarrow>
            sent_of (database (fst t)) j = sent_of (database (fst s)) j) \<and>
         (sent_of (database (fst t)) j \<noteq> sent_of (database (fst s)) j \<longrightarrow>
            \<not> is_sent (database (fst s)) j \<and>
            (sent_of (database (fst t)) j = Some (PBool True) \<or>
             (\<exists>n. sent_of (database (fst t)) j = Some (PNum (clock L n))))) \<and>
         ((\<forall>n. clock L n \<noteq> 0) \<and>
          sent_of (database (fst t)) j \<noteq> sent_of (database (fst s)) j \<longrightarrow>
            is_sent (database (fst t)) j)"
proof -
  from survives_forward [OF assms]
  have fwd: "moved_forward L j (database (fst s)) (database (fst t))" by simp
  have kept: "sent_of (database (fst t)) j = sent_of (database (fst s)) j"
    if "is_sent (database (fst s)) j"
    using fwd that unfolding moved_forward_def by blast
  have changed: "\<not> is_sent (database (fst s)) j \<and>
            (sent_of (database (fst t)) j = Some (PBool True) \<or>
             (\<exists>n. sent_of (database (fst t)) j = Some (PNum (clock L n))))"
    if "sent_of (database (fst t)) j \<noteq> sent_of (database (fst s)) j"
    using fwd that unfolding moved_forward_def by blast
  have truthy: "is_sent (database (fst t)) j"
    if clk: "\<forall>n. clock L n \<noteq> 0"
      and diff: "sent_of (database (fst t)) j \<noteq> sent_of (database (fst s)) j"
  proof -
    from changed [OF diff]
    have "sent_of (database (fst t)) j = Some (PBool True) \<or>
          (\<exists>n. sent_of (database (fst t)) j = Some (PNum (clock L n)))"
      by simp
    then show ?thesis
    proof (elim disjE exE)
      assume "sent_of (database (fst t)) j = Some (PBool True)"
      then show ?thesis by (simp add: is_sent_def)
    next
      fix n
      assume "sent_of (database (fst t)) j = Some (PNum (clock L n))"
      moreover from clk have "clock L n \<noteq> 0" by simp
      ultimately show ?thesis by (rule is_sent_PNum)
    qed
  qed
  from kept changed truthy show ?thesis by blast
qed

text \<open>
  The demo agent: the feed is processed (the entry is delivered), processed again, and the
  ledger is flushed.
\<close>

lemma demo_steps:
  "survives demo_libs ''entry-1'' (demo_agent, demo_world) then_flushed"
  "survives demo_libs ''entry-1'' once_fed then_flushed"
proof -
  have first: "pipeline_step demo_libs (demo_agent, demo_world) once_fed"
    unfolding once_fed_def
    by (rule pipeline_step.feed [where x = "snd (process_feed demo_libs live_options demo_config (demo_agent, demo_world))"]) simp
  have second: "pipeline_step demo_libs once_fed fed_again"
    unfolding fed_again_def
    by (rule pipeline_step.feed [where x = "snd (process_feed demo_libs live_options demo_config once_fed)"]) simp
  have third: "pipeline_step demo_libs fed_again then_flushed"
    unfolding then_flushed_def
    by (rule pipeline_step.flush [where x = "snd (flushdb demo_libs live_options fed_again)"]) simp
  have there: "record_of (database (fst once_fed)) ''entry-1'' \<noteq> None"
    "record_of (database (fst fed_again)) ''entry-1'' \<noteq> None"
    "record_of (database (fst then_flushed)) ''entry-1'' \<noteq> None"
    by code_simp+
  have "survives demo_libs ''entry-1'' once_fed fed_again"
    using survives.start second there(2) by (rule survives.step)
  then show "survives demo_libs ''entry-1'' once_fed then_flushed"
    using third there(3) by (rule survives.step)
  have "survives demo_libs ''entry-1'' (demo_agent, demo_world) once_fed"
    using survives.start first there(1) by (rule survives.step)
  then have "survives demo_libs ''entry-1'' (demo_agent, demo_world) fed_again"
    using second there(2) by (rule survives.step)
  then show "survives demo_libs ''entry-1'' (demo_agent, demo_world) then_flushed"
    using third there(3) by (rule survives.step)
qed

theorem sent_only_forward_witness:
  "sent_of (database demo_agent) ''entry-1'' = None \<and>
   sent_of (database (fst once_fed)) ''entry-1'' = Some (PNum 1700000000000000) \<and>
   sent_of (database (fst then_flushed)) ''entry-1'' = sent_of (database (fst once_fed)) ''entry-1'' \<and>
   is_sent (database (fst then_flushed)) ''entry-1''"
proof -
  have before: "sent_of (database demo_agent) ''entry-1'' = None"
    and mid: "sent_of (database (fst once_fed)) ''entry-1'' = Some (PNum 1700000000000000)"
    by code_simp+
  then have sent: "is_sent (database (fst once_fed)) ''entry-1''"
    by (simp add: is_sent_def)
  have ids: "distinct_ids (database (fst (demo_agent, demo_world)))"
    "distinct_ids (database (fst once_fed))"
    by code_simp+
  have clk: "\<forall>n. clock demo_libs n \<noteq> 0"
    by (simp add: demo_libs_def)
  from sent_only_forward [OF demo_steps(2) ids(2)] sent
  have same: "sent_of (database (fst then_flushed)) ''entry-1'' =
              sent_of (database (fst once_fed)) ''entry-1''"
    by simp
  with mid before
  have "sent_of (database (fst then_flushed)) ''entry-1'' \<noteq>
        sent_of (database (fst (demo_agent, demo_world))) ''entry-1''"
    by simp
  with sent_only_forward [OF demo_steps(1) ids(1)] clk
  have "is_sent (database (fst then_flushed)) ''entry-1''"
    by blast
  with before mid same show ?thesis by simp
qed

section \<open>Image attachment\<close>

text \<open>
  Claim C9, as the code has it. With image inclusion enabled and a structured media list
  present, the first \<open>image\<close> item and the first \<open>thumbnail\<close> item are each attached,
  under their own key, with the URL and the height and width (numeric or \<open>None\<close>) of
  \<open>media_object\<close>; inline images are then ignored. Without a media list the first
  extracted inline image is attached as the thumbnail. With image inclusion disabled
  nothing is attached. The keys of the embed are distinct, so there is at most one
  attachment of each kind.
\<close>

theorem image_attachment_policy:
  assumes "build_payload L config feed entry = Inr payload"
  shows "\<exists>emb md_text images.
           payload = PDict (sender_fields config @ [(''embeds'', PList [PDict emb])]) \<and>
           get_content L entry = Inr (md_text, images) \<and>
           distinct (map fst emb) \<and>
           (if \<not> include_image config
            then map_of emb ''image'' = None \<and> map_of emb ''thumbnail'' = None
            else case e_media_content entry of
              Some items \<Rightarrow>
                (\<forall>m \<in> {''image'', ''thumbnail''}.
                   case find (\<lambda>item. map_of item ''medium'' = Some m) items of
                     None \<Rightarrow> map_of emb m = None
                   | Some item \<Rightarrow> \<exists>obj. media_object L item = Inr obj \<and> map_of emb m = Some obj)
            | None \<Rightarrow>
                map_of emb ''image'' = None \<and>
                map_of emb ''thumbnail'' =
                  (case images of [] \<Rightarrow> None | u # rest \<Rightarrow> Some (PDict [(''url'', PStr u)])))"
proof -
  from assms obtain emb where emb: "build_embed L config feed entry = Inr emb"
    and payload: "payload = PDict (sender_fields config @ [(''embeds'', PList [PDict emb])])"
    using build_payload_embed by blast
  from build_embed_attach [OF emb] obtain md_text images base
    where content: "get_content L entry = Inr (md_text, images)"
      and attach: "attach_image L config entry images base = Inr emb"
      and keys: "map fst base = [''type'', ''url'', ''author'', ''description'']"
    by auto
  have base_image: "map_of base ''image'' = None" and base_thumb: "map_of base ''thumbnail'' = None"
    using keys by (simp_all add: map_of_eq_None_iff flip: set_map)
  have base_distinct: "distinct (map fst base)"
    using keys by simp
  have dist: "distinct (map fst emb)"
    using attach base_distinct
    by (auto simp: attach_image_def AList.distinct_update attach_media_distinct
             split: if_splits option.splits list.splits)
  have policy: "if \<not> include_image config
            then map_of emb ''image'' = None \<and> map_of emb ''thumbnail'' = None
            else case e_media_content entry of
              Some items \<Rightarrow>
                (\<forall>m \<in> {''image'', ''thumbnail''}.
                   case find (\<lambda>item. map_of item ''medium'' = Some m) items of
                     None \<Rightarrow> map_of emb m = None
                   | Some item \<Rightarrow> \<exists>obj. media_object L item = Inr obj \<and> map_of emb m = Some obj)
            | None \<Rightarrow>
                map_of emb ''image'' = None \<and>
                map_of emb ''thumbnail'' =
                  (case images of [] \<Rightarrow> None | u # rest \<Rightarrow> Some (PDict [(''url'', PStr u)]))"
  proof (cases "include_image config")
    case False
    with attach have "emb = base" by (simp add: attach_image_def)
    with False base_image base_thumb show ?thesis by simp
  next
    case True
    show ?thesis
    proof (cases "e_media_content entry")
      case None
      with True attach base_image base_thumb show ?thesis
        by (auto simp: attach_image_def map_of_update split: list.splits)
    next
      case (Some items)
      with True attach have media: "attach_media L items base = Inr emb"
        by (simp add: attach_image_def)
      have "case find (\<lambda>item. map_of item ''medium'' = Some m) items of
              None \<Rightarrow> map_of emb m = None
            | Some item \<Rightarrow> \<exists>obj. media_object L item = Inr obj \<and> map_of emb m = Some obj"
        if "m \<in> {''image'', ''thumbnail''}" for m
        using attach_media_first [OF media, of m] that base_image base_thumb by auto
      with True Some show ?thesis by simp
    qed
  qed
  from payload content dist policy show ?thesis by blast
qed

text \<open>
  The claim's bound of one image per payload does not hold: a media list with an
  \<open>image\<close> item and a \<open>thumbnail\<close> item attaches both.
\<close>

theorem two_images_attached:
  "build_payload demo_libs demo_config demo_meta (demo_entry\<lparr>e_media_content := Some two_media\<rparr>) =
   Inr (PDict [(''embeds'', PList [PDict
     [(''type'', PStr ''rich''), (''url'', PStr ''http://x/''),
      (''author'', PDict [(''url'', PStr ''http://x/''), (''name'', PStr ''Feed'')]),
      (''description'', PStr ''## [Title](http://x/)''),
      (''image'', PDict [(''url'', PStr ''http://x/big.png''), (''height'', PNum 600), (''width'', PNone)]),
      (''thumbnail'', PDict [(''url'', PStr ''http://x/small.png''), (''height'', PNone), (''width'', PNone)])]])])"
  by code_simp

text \<open>
  Claim C10: when the entry has a structured media list with no \<open>image\<close> or
  \<open>thumbnail\<close> item, the payload carries no image at all, whatever the configuration
  and whatever inline images were extracted.
\<close>

theorem media_list_suppresses_inline_image:
  assumes "e_media_content entry = Some items"
      and "\<forall>item \<in> set items. map_of item ''medium'' \<noteq> Some ''image'' \<and>
                              map_of item ''medium'' \<noteq> Some ''thumbnail''"
      and "build_payload L config feed entry = Inr payload"
  shows "\<exists>emb. payload = PDict (sender_fields config @ [(''embeds'', PList [PDict emb])]) \<and>
               map_of emb ''image'' = None \<and> map_of emb ''thumbnail'' = None"
proof -
  from assms(3) obtain emb where emb: "build_embed L config feed entry = Inr emb"
    and payload: "payload = PDict (sender_fields config @ [(''embeds'', PList [PDict emb])])"
    using build_payload_embed by blast
  from build_embed_attach [OF emb] obtain md_text images base
    where attach: "attach_image L config entry images base = Inr emb"
      and keys: "map fst base = [''type'', ''url'', ''author'', ''description'']"
    by auto
  have base_none: "map_of base ''image'' = None" "map_of base ''thumbnail'' = None"
    using keys by (simp_all add: map_of_eq_None_iff flip: set_map)
  have no_item: "find (\<lambda>item. map_of item ''medium'' = Some m) items = None"
    if "m = ''image'' \<or> m = ''thumbnail''" for m
    using assms(2) that by (auto simp: find_None_iff)
  have "map_of emb m = None" if m: "m = ''image'' \<or> m = ''thumbnail''" for m
  proof (cases "include_image config")
    case False
    with attach have "emb = base" by (simp add: attach_image_def)
    with base_none m show ?thesis by auto
  next
    case True
    with attach assms(1) have media: "attach_media L items base = Inr emb"
      by (simp add: attach_image_def)
    from attach_media_first [OF media m] base_none m no_item [OF m] show ?thesis by auto
  qed
  with payload show ?thesis by blast
qed


theorem image_attachment_policy_witness:
  "build_payload demo_libs demo_config demo_meta demo_entry =
     Inr (PDict [(''embeds'', PList [PDict
       [(''type'', PStr ''rich''), (''url'', PStr ''http://x/''),
        (''author'', PDict [(''url'', PStr ''http://x/''), (''name'', PStr ''Feed'')]),
        (''description'', PStr ''## [Title](http://x/)''),
        (''thumbnail'', PDict [(''url'', PStr ''http://x/a.png'')])]])]) \<and>
   (\<exists>emb md_text images.
      PDict [(''embeds'', PList [PDict
       [(''type'', PStr ''rich''), (''url'', PStr ''http://x/''),
        (''author'', PDict [(''url'', PStr ''http://x/''), (''name'', PStr ''Feed'')]),
        (''description'', PStr ''## [Title](http://x/)''),
        (''thumbnail'', PDict [(''url'', PStr ''http://x/a.png'')])]])] =
        PDict (sender_fields demo_config @ [(''embeds'', PList [PDict emb])]) \<and>
      get_content demo_libs demo_entry = Inr (md_text, images) \<and>
      images = [''http://x/a.png''] \<and>
      map_of emb ''image'' = None \<and>
      map_of emb ''thumbnail'' = Some (PDict [(''url'', PStr ''http://x/a.png'')]))"
proof -
  have payload: "build_payload demo_libs demo_config demo_meta demo_entry =
     Inr (PDict [(''embeds'', PList [PDict
       [(''type'', PStr ''rich''), (''url'', PStr ''http://x/''),
        (''author'', PDict [(''url'', PStr ''http://x/''), (''name'', PStr ''Feed'')]),
        (''description'', PStr ''## [Title](http://x/)''),
        (''thumbnail'', PDict [(''url'', PStr ''http://x/a.png'')])]])])"
    by code_simp
  have content: "get_content demo_libs demo_entry = Inr (''Hello world'', [''http://x/a.png''])"
    by code_simp
  have cfg: "include_image demo_config" "e_media_content demo_entry = None"
    by (simp_all add: demo_config_def demo_entry_def)
  from image_attachment_policy [OF payload] content cfg payload show ?thesis
    by auto
qed

theorem media_list_suppresses_inline_image_witness:
  "e_media_content demo_video_entry = Some video_media \<and>
   include_image demo_config \<and>
   get_content demo_libs demo_video_entry = Inr (''Hello world'', [''http://x/a.png'']) \<and>
   build_payload demo_libs demo_config demo_meta demo_video_entry =
     Inr (PDict [(''embeds'', PList [PDict
       [(''type'', PStr ''rich''), (''url'', PStr ''http://x/''),
        (''author'', PDict [(''url'', PStr ''http://x/''), (''name'', PStr ''Feed'')]),
        (''description'', PStr ''## [Title](http://x/)'')]])]) \<and>
   (\<exists>emb. PDict [(''embeds'', PList [PDict
       [(''type'', PStr ''rich''), (''url'', PStr ''http://x/''),
        (''author'', PDict [(''url'', PStr ''http://x/''), (''name'', PStr ''Feed'')]),
        (''description'', PStr ''## [Title](http://x/)'')]])] =
       PDict (sender_fields demo_config @ [(''embeds'', PList [PDict emb])]) \<and>
     map_of emb ''image'' = None \<and> map_of emb ''thumbnail'' = None)"
proof -
  have media: "e_media_content demo_video_entry = Some video_media"
    by (simp add: demo_video_entry_def)
  have kinds: "\<forall>item \<in> set video_media. map_of item ''medium'' \<noteq> Some ''image'' \<and>
                               map_of item ''medium'' \<noteq> Some ''thumbnail''"
    by (simp add: video_media_def)
  have payload: "build_payload demo_libs demo_config demo_meta demo_video_entry =
     Inr (PDict [(''embeds'', PList [PDict
       [(''type'', PStr ''rich''), (''url'', PStr ''http://x/''),
        (''author'', PDict [(''url'', PStr ''http://x/''), (''name'', PStr ''Feed'')]),
        (''description'', PStr ''## [Title](http://x/)'')]])])"
    by code_simp
  have content: "get_content demo_libs demo_video_entry = Inr (''Hello world'', [''http://x/a.png''])"
    by code_simp
  have cfg: "include_image demo_config"
    by (simp add: demo_config_def)
  from media_list_suppresses_inline_image [OF media kinds payload] media kinds payload content cfg
  show ?thesis by simp
qed

end
